theory Spec2Isabelle
  imports Complex_Main "HOL-Library.AList"
begin

section \<open>Python values used by graph\_maker.py\<close>

text \<open>
  Exceptions of the Python source are values: every function that can raise returns
  \<open>py_error + 'a\<close>, with \<open>Inl\<close> the exception.
\<close>

datatype py_error =
  ValueError | TypeError | ZeroDivisionError | OverflowError | KeyError | NetworkXError

subsection \<open>\<open>str\<close> on an int, \<open>int\<close> on a string, \<open>split("->")\<close>\<close>

definition digit_char :: "nat \<Rightarrow> char" where
  "digit_char d = char_of (48 + d)"

function str_nat :: "nat \<Rightarrow> string" where
  "str_nat n = (if n < 10 then [digit_char n] else str_nat (n div 10) @ [digit_char (n mod 10)])"
  by pat_completeness auto
termination
  by (relation "measure id") auto

declare str_nat.simps [simp del]

text \<open>Python's \<open>str(i)\<close> for an int: decimal digits, a leading minus sign when negative.\<close>

definition str_int :: "int \<Rightarrow> string" where
  "str_int i = (if i < 0 then CHR ''-'' # str_nat (nat (- i)) else str_nat (nat i))"

definition is_digit :: "char \<Rightarrow> bool" where
  "is_digit c = (48 \<le> (of_char c :: nat) \<and> (of_char c :: nat) \<le> 57)"

fun nat_of_digits :: "nat \<Rightarrow> string \<Rightarrow> nat" where
  "nat_of_digits acc [] = acc"
| "nat_of_digits acc (c # cs) = nat_of_digits (10 * acc + (of_char c - 48)) cs"

text \<open>
  Python's \<open>int(s)\<close> on a string, for the decimal forms \<open>str\<close> produces (an optional
  minus sign and at least one digit); every other string is a \<open>ValueError\<close> here.
  Python also accepts surrounding whitespace, a plus sign and underscores; no key built
  by \<open>generate_edge_key\<close> has them.
\<close>

definition py_int :: "string \<Rightarrow> py_error + int" where
  "py_int s =
     (case s of
        [] \<Rightarrow> Inl ValueError
      | c # cs \<Rightarrow>
          if c = CHR ''-'' then
            (if cs \<noteq> [] \<and> list_all is_digit cs then Inr (- int (nat_of_digits 0 cs))
             else Inl ValueError)
          else if list_all is_digit s then Inr (int (nat_of_digits 0 s))
          else Inl ValueError)"

text \<open>\<open>key.split("->")\<close>: the pieces between the occurrences of the separator, left to right.\<close>

fun split_arrow :: "string \<Rightarrow> string list" where
  "split_arrow [] = [[]]"
| "split_arrow [c] = [[c]]"
| "split_arrow (c # d # cs) =
     (if c = CHR ''-'' \<and> d = CHR ''>'' then [] # split_arrow cs
      else (case split_arrow (d # cs) of
              [] \<Rightarrow> [[c]]
            | r # rs \<Rightarrow> (c # r) # rs))"

subsection \<open>True division\<close>

text \<open>
  Python's \<open>a / b\<close> on ints is a float: the double nearest to the exact quotient, a tie
  going to the even significand. \<open>round_half_even\<close> rounds to an integer that way.
\<close>

definition round_half_even :: "real \<Rightarrow> int" where
  "round_half_even x =
     (let f = \<lfloor>x\<rfloor>; d = x - of_int f
      in if d < 1 / 2 then f else if 1 / 2 < d then f + 1 else if even f then f else f + 1)"

text \<open>
  The binary exponent of a positive \<open>x\<close>: the \<open>e\<close> with \<open>2 ^ e \<le> x < 2 ^ (e + 1)\<close>, found by
  halving or doubling \<open>x\<close> at most \<open>fuel\<close> times.
\<close>

fun binade :: "nat \<Rightarrow> real \<Rightarrow> int \<Rightarrow> int" where
  "binade 0 x e = e"
| "binade (Suc fuel) x e =
     (if 2 \<le> x then binade fuel (x / 2) (e + 1)
      else if x < 1 then binade fuel (2 * x) (e - 1)
      else e)"

definition pow2 :: "int \<Rightarrow> real" where
  "pow2 i = (if 0 \<le> i then 2 ^ nat i else 1 / 2 ^ nat (- i))"

text \<open>
  \<open>a / b\<close> for a dividend \<open>a\<close> and an int \<open>b \<ge> 0\<close>: \<open>ZeroDivisionError\<close> for \<open>b = 0\<close>,
  else the quotient rounded to a double (53 significant bits, exponents from -1022,
  below that the subnormal spacing \<open>2 ^ -1074\<close>), \<open>OverflowError\<close> when the rounded value
  reaches \<open>2 ^ 1024\<close>. The fuel 2200 covers every exponent a double has. This is Python's
  result when \<open>a\<close> is an int, as every edge weight is before normalisation.
\<close>

definition py_truediv :: "real \<Rightarrow> nat \<Rightarrow> py_error + real" where
  "py_truediv a b =
     (if b = 0 then Inl ZeroDivisionError
      else
        (let q = a / real b; x = \<bar>q\<bar>
         in if x = 0 then Inr 0
            else
              (let e = max (binade 2200 x 0) (- 1022);
                   ulp = pow2 (e - 52);
                   r = of_int (round_half_even (x / ulp)) * ulp
               in if pow2 1024 \<le> r then Inl OverflowError
                  else Inr (if q < 0 then - r else r))))"

section \<open>The multigraph of networkx, as graph\_maker.py uses it\<close>

text \<open>
  A \<open>MultiDiGraph\<close>: the nodes in insertion order, and the edges, each identified by
  source, destination and key, with its \<open>weight\<close> attribute. A weight is an int before
  normalisation and a float after it; both are real numbers here, a float being the
  rational number the double stands for. The \<open>label\<close> attribute, a copy of the weight
  written for graphviz, is left out.
\<close>

type_synonym edge_id = "int \<times> int \<times> string"

record graph =
  nodes :: "int list"
  edges :: "(edge_id \<times> real) list"

definition empty_graph :: graph where
  "empty_graph = \<lparr>nodes = [], edges = []\<rparr>"

definition get_edge_data :: "graph \<Rightarrow> int \<Rightarrow> int \<Rightarrow> string \<Rightarrow> real option" where
  "get_edge_data g u v k = map_of (edges g) (u, v, k)"

definition add_node :: "graph \<Rightarrow> int \<Rightarrow> graph" where
  "add_node g n = (if n \<in> set (nodes g) then g else g\<lparr>nodes := nodes g @ [n]\<rparr>)"

text \<open>\<open>add_edge(u, v, key=k, weight=w)\<close> adds the missing endpoints, then sets the edge.\<close>

definition add_edge :: "graph \<Rightarrow> int \<Rightarrow> int \<Rightarrow> string \<Rightarrow> real \<Rightarrow> graph" where
  "add_edge g u v k w =
     (let g' = add_node (add_node g u) v
      in g'\<lparr>edges := AList.update (u, v, k) w (edges g')\<rparr>)"

text \<open>\<open>graph[u][v][k]["weight"] = w\<close>: a \<open>KeyError\<close> when the edge is absent.\<close>

definition set_weight :: "graph \<Rightarrow> int \<Rightarrow> int \<Rightarrow> string \<Rightarrow> real \<Rightarrow> py_error + graph" where
  "set_weight g u v k w =
     (case get_edge_data g u v k of
        None \<Rightarrow> Inl KeyError
      | Some _ \<Rightarrow> Inr (g\<lparr>edges := AList.update (u, v, k) w (edges g)\<rparr>))"

definition remove_edge :: "graph \<Rightarrow> edge_id \<Rightarrow> py_error + graph" where
  "remove_edge g e =
     (if e \<in> fst ` set (edges g) then Inr (g\<lparr>edges := AList.delete e (edges g)\<rparr>)
      else Inl NetworkXError)"

text \<open>\<open>remove_node(n)\<close> removes the node and every edge into or out of it.\<close>

definition remove_node :: "graph \<Rightarrow> int \<Rightarrow> py_error + graph" where
  "remove_node g n =
     (if n \<in> set (nodes g) then
        Inr (g\<lparr>nodes := removeAll n (nodes g),
               edges := filter (\<lambda>((u, v, k), w). u \<noteq> n \<and> v \<noteq> n) (edges g)\<rparr>)
      else Inl NetworkXError)"

text \<open>
  \<open>graph.edges(keys=True)\<close> reports the edges node by node in node order, under each
  node neighbour by neighbour in the order the neighbours were first linked.
\<close>

definition edges_view :: "graph \<Rightarrow> edge_id list" where
  "edges_view g =
     concat (map (\<lambda>u.
       let es = filter (\<lambda>(a, b, k). a = u) (map fst (edges g))
       in concat (map (\<lambda>v. filter (\<lambda>(a, b, k). b = v) es) (remdups (map (\<lambda>(a, b, k). b) es))))
     (nodes g))"

section \<open>graph\_maker.py\<close>

definition generate_edge_key :: "int \<Rightarrow> int \<Rightarrow> string" where
  "generate_edge_key src_user_id dest_user_id = str_int src_user_id @ ''->'' @ str_int dest_user_id"

definition add_or_update_edge_in_graph :: "graph \<Rightarrow> int \<Rightarrow> int \<Rightarrow> int list \<Rightarrow> graph" where
  "add_or_update_edge_in_graph g src_user_id dest_user_id user_ids =
     (if src_user_id \<noteq> dest_user_id \<and> src_user_id \<in> set user_ids \<and> dest_user_id \<in> set user_ids
      then
        (let key = generate_edge_key src_user_id dest_user_id
         in case get_edge_data g src_user_id dest_user_id key of
              None \<Rightarrow> add_edge g src_user_id dest_user_id key 1
            | Some w \<Rightarrow>
                g\<lparr>edges := AList.update (src_user_id, dest_user_id, key) (w + 1) (edges g)\<rparr>)
      else g)"

text \<open>
  A row of a tweet file after \<open>ast.literal_eval\<close> of its four columns. A column is
  \<open>None\<close> when \<open>literal_eval\<close> raises \<open>ValueError\<close> (an empty cell), else the list it
  holds. utils.py writes lists of ints, and Python's \<open>None\<close> for a replied-to author
  whose account was deleted: an element is \<open>Some id\<close> or \<open>None\<close>, and \<open>int(None)\<close>
  raises \<open>TypeError\<close>.
\<close>

record tweet =
  replied_to_author_ids :: "int option list option"
  retweeted_author_ids :: "int option list option"
  quoted_author_ids :: "int option list option"
  mentioned_user_ids :: "int option list option"

text \<open>\<open>for user_id_str in ids: add_or_update_edge_in_graph(graph, int(user_id_str), curr_user_id, user_ids)\<close>\<close>

fun add_edges_from :: "graph \<Rightarrow> int option list \<Rightarrow> int \<Rightarrow> int list \<Rightarrow> py_error + graph" where
  "add_edges_from g [] curr_user_id user_ids = Inr g"
| "add_edges_from g (None # ids) curr_user_id user_ids = Inl TypeError"
| "add_edges_from g (Some i # ids) curr_user_id user_ids =
     add_edges_from (add_or_update_edge_in_graph g i curr_user_id user_ids) ids curr_user_id user_ids"

text \<open>The mention loop: an id found among the replied-to, retweeted or quoted ids is skipped.\<close>

fun add_mention_edges ::
  "graph \<Rightarrow> int option list \<Rightarrow> int option list \<Rightarrow> int \<Rightarrow> int list \<Rightarrow> py_error + graph" where
  "add_mention_edges g [] rrq curr_user_id user_ids = Inr g"
| "add_mention_edges g (m # ms) rrq curr_user_id user_ids =
     (if m \<notin> set rrq then
        (case m of
           None \<Rightarrow> Inl TypeError
         | Some i \<Rightarrow>
             add_mention_edges (add_or_update_edge_in_graph g i curr_user_id user_ids) ms rrq
               curr_user_id user_ids)
      else add_mention_edges g ms rrq curr_user_id user_ids)"

text \<open>The first \<open>try\<close> block: the reply edges. A \<open>ValueError\<close> of \<open>literal_eval\<close> is swallowed.\<close>

definition reply_edges ::
  "int \<Rightarrow> int list \<Rightarrow> tweet \<Rightarrow> graph \<Rightarrow> py_error + (graph \<times> int option list)" where
  "reply_edges curr_user_id user_ids tweet_ser g =
     (case replied_to_author_ids tweet_ser of
        None \<Rightarrow> Inr (g, [])
      | Some replied \<Rightarrow>
          (case add_edges_from g replied curr_user_id user_ids of
             Inl e \<Rightarrow> Inl e
           | Inr g' \<Rightarrow> Inr (g', replied)))"

text \<open>
  The second \<open>try\<close> block: both columns are evaluated before the loop, so a
  \<open>ValueError\<close> of either skips the retweet and the quote edges together.
\<close>

definition retweet_quote_edges ::
  "int \<Rightarrow> int list \<Rightarrow> tweet \<Rightarrow> graph \<times> int option list \<Rightarrow> py_error + (graph \<times> int option list)" where
  "retweet_quote_edges curr_user_id user_ids tweet_ser st =
     (case retweeted_author_ids tweet_ser of
        None \<Rightarrow> Inr st
      | Some retweeted \<Rightarrow>
          (case quoted_author_ids tweet_ser of
             None \<Rightarrow> Inr st
           | Some quoted \<Rightarrow>
               (case add_edges_from (fst st) (retweeted @ quoted) curr_user_id user_ids of
                  Inl e \<Rightarrow> Inl e
                | Inr g' \<Rightarrow> Inr (g', snd st @ retweeted @ quoted))))"

text \<open>The mention edges: \<open>literal_eval\<close> is outside any \<open>try\<close>, its \<open>ValueError\<close> propagates.\<close>

definition mention_edges ::
  "int \<Rightarrow> int list \<Rightarrow> tweet \<Rightarrow> graph \<times> int option list \<Rightarrow> py_error + graph" where
  "mention_edges curr_user_id user_ids tweet_ser st =
     (case mentioned_user_ids tweet_ser of
        None \<Rightarrow> Inl ValueError
      | Some mention_ids \<Rightarrow> add_mention_edges (fst st) mention_ids (snd st) curr_user_id user_ids)"

definition process_potential_edges :: "int \<Rightarrow> int list \<Rightarrow> tweet \<Rightarrow> graph \<Rightarrow> py_error + graph" where
  "process_potential_edges curr_user_id user_ids tweet_ser g =
     (case reply_edges curr_user_id user_ids tweet_ser g of
        Inl e \<Rightarrow> Inl e
      | Inr st1 \<Rightarrow>
          (case retweet_quote_edges curr_user_id user_ids tweet_ser st1 of
             Inl e \<Rightarrow> Inl e
           | Inr st2 \<Rightarrow> mention_edges curr_user_id user_ids tweet_ser st2))"

text \<open>
  One step of the loop of \<open>normalize_graph_edge_weights\<close> over \<open>graph.edges(keys=True, data=True)\<close>.
  The state is the graph, \<open>edges_to_remove\<close> and \<open>node_to_remove\<close>. The endpoints are read
  back from the key; \<open>data\<close> is the attribute dictionary of the reported edge \<open>(u, v, key)\<close>.
\<close>

type_synonym norm_state = "graph \<times> edge_id list \<times> int list"

definition parse_edge_key :: "string \<Rightarrow> py_error + (int \<times> int)" where
  "parse_edge_key key =
     (case split_arrow key of
        [a, b] \<Rightarrow>
          (case py_int a of
             Inl e \<Rightarrow> Inl e
           | Inr src_node \<Rightarrow>
               (case py_int b of Inl e \<Rightarrow> Inl e | Inr dest_node \<Rightarrow> Inr (src_node, dest_node)))
      | _ \<Rightarrow> Inl ValueError)"

definition normalize_edge ::
  "(int \<rightharpoonup> nat) \<Rightarrow> int \<Rightarrow> norm_state \<Rightarrow> edge_id \<Rightarrow> py_error + norm_state" where
  "normalize_edge num_tweets_per_user_dict min_number_tweets st e =
     (case (st, e) of ((g, edges_to_remove, node_to_remove), (u, v, key)) \<Rightarrow>
        (case parse_edge_key key of
           Inl err \<Rightarrow> Inl err
         | Inr (src_node, dest_node) \<Rightarrow>
             (case num_tweets_per_user_dict src_node of
                Some n \<Rightarrow>
                  if min_number_tweets \<le> int n then
                    (case get_edge_data g u v key of
                       None \<Rightarrow> Inl KeyError
                     | Some w \<Rightarrow>
                         (case py_truediv w n of
                            Inl err \<Rightarrow> Inl err
                          | Inr q \<Rightarrow>
                              (case set_weight g src_node dest_node key q of
                                 Inl err \<Rightarrow> Inl err
                               | Inr g' \<Rightarrow> Inr (g', edges_to_remove, node_to_remove))))
                  else
                    Inr (g, edges_to_remove @ [(src_node, dest_node, key)],
                         if src_node \<in> set node_to_remove then node_to_remove
                         else node_to_remove @ [src_node])
              | None \<Rightarrow>
                  Inr (g, edges_to_remove @ [(src_node, dest_node, key)],
                       if src_node \<in> set node_to_remove then node_to_remove
                       else node_to_remove @ [src_node]))))"

fun normalize_loop ::
  "(int \<rightharpoonup> nat) \<Rightarrow> int \<Rightarrow> norm_state \<Rightarrow> edge_id list \<Rightarrow> py_error + norm_state" where
  "normalize_loop d m st [] = Inr st"
| "normalize_loop d m st (e # es) =
     (case normalize_edge d m st e of
        Inl err \<Rightarrow> Inl err
      | Inr st' \<Rightarrow> normalize_loop d m st' es)"

fun remove_edges :: "graph \<Rightarrow> edge_id list \<Rightarrow> py_error + graph" where
  "remove_edges g [] = Inr g"
| "remove_edges g (e # es) =
     (case remove_edge g e of Inl err \<Rightarrow> Inl err | Inr g' \<Rightarrow> remove_edges g' es)"

fun remove_nodes :: "graph \<Rightarrow> int list \<Rightarrow> py_error + graph" where
  "remove_nodes g [] = Inr g"
| "remove_nodes g (n # ns) =
     (case remove_node g n of Inl err \<Rightarrow> Inl err | Inr g' \<Rightarrow> remove_nodes g' ns)"

definition normalize_graph_edge_weights ::
  "graph \<Rightarrow> (int \<rightharpoonup> nat) \<Rightarrow> int \<Rightarrow> py_error + graph" where
  "normalize_graph_edge_weights g num_tweets_per_user_dict min_number_tweets =
     (case normalize_loop num_tweets_per_user_dict min_number_tweets (g, [], []) (edges_view g) of
        Inl err \<Rightarrow> Inl err
      | Inr (g1, edges_to_remove, node_to_remove) \<Rightarrow>
          (case remove_edges g1 edges_to_remove of
             Inl err \<Rightarrow> Inl err
           | Inr g2 \<Rightarrow> remove_nodes g2 node_to_remove))"

text \<open>
  \<open>make_graph\<close> reads a directory of tweet files. The directory is given as the list of
  its \<open>.csv\<close> files, each by the user id its name starts with and its rows. The files are
  processed in the order of their user ids (Python's sort is stable, as \<open>sort_key\<close> is).
\<close>

type_synonym tweet_file = "int \<times> tweet list"

fun process_tweets :: "int \<Rightarrow> int list \<Rightarrow> graph \<Rightarrow> tweet list \<Rightarrow> py_error + graph" where
  "process_tweets curr_user_id user_ids g [] = Inr g"
| "process_tweets curr_user_id user_ids g (tweet_ser # rest) =
     (case process_potential_edges curr_user_id user_ids tweet_ser g of
        Inl e \<Rightarrow> Inl e
      | Inr g' \<Rightarrow> process_tweets curr_user_id user_ids g' rest)"

fun process_files ::
  "int list \<Rightarrow> graph \<times> (int \<rightharpoonup> nat) \<Rightarrow> tweet_file list \<Rightarrow> py_error + (graph \<times> (int \<rightharpoonup> nat))" where
  "process_files user_ids st [] = Inr st"
| "process_files user_ids st ((curr_user_id, tweet_df) # rest) =
     (case process_tweets curr_user_id user_ids (fst st) tweet_df of
        Inl e \<Rightarrow> Inl e
      | Inr g' \<Rightarrow>
          process_files user_ids (g', (snd st)(curr_user_id \<mapsto> length tweet_df)) rest)"

definition build_edges :: "tweet_file list \<Rightarrow> py_error + (graph \<times> (int \<rightharpoonup> nat))" where
  "build_edges files =
     (let fnames = sort_key fst files; user_ids = map fst fnames
      in process_files user_ids (empty_graph, Map.empty) fnames)"

definition make_graph :: "tweet_file list \<Rightarrow> int \<Rightarrow> py_error + graph" where
  "make_graph files min_number_tweets =
     (case build_edges files of
        Inl e \<Rightarrow> Inl e
      | Inr (g, num_tweets_per_user_dict) \<Rightarrow>
          normalize_graph_edge_weights g num_tweets_per_user_dict min_number_tweets)"

subsection \<open>What a tweet counts\<close>

text \<open>The list \<open>replied_retweeted_quoted_user_ids\<close> that \<open>process_potential_edges\<close> builds.\<close>

definition rrq_ids :: "tweet \<Rightarrow> int option list" where
  "rrq_ids tweet_ser =
     (case replied_to_author_ids tweet_ser of None \<Rightarrow> [] | Some replied \<Rightarrow> replied) @
     (case retweeted_author_ids tweet_ser of
        None \<Rightarrow> []
      | Some retweeted \<Rightarrow>
          (case quoted_author_ids tweet_ser of None \<Rightarrow> [] | Some quoted \<Rightarrow> retweeted @ quoted))"

text \<open>
  The ids that one tweet hands to \<open>add_or_update_edge_in_graph\<close>, in the order of the
  calls: the replied-to, retweeted and quoted ids, then the mentions not among them.
\<close>

definition counted_ids :: "tweet \<Rightarrow> int option list" where
  "counted_ids tweet_ser =
     rrq_ids tweet_ser @
     filter (\<lambda>m. m \<notin> set (rrq_ids tweet_ser))
       (case mentioned_user_ids tweet_ser of None \<Rightarrow> [] | Some mention_ids \<Rightarrow> mention_ids)"

text \<open>The interactions that pass the guard of \<open>add_or_update_edge_in_graph\<close>, as pairs (source, destination).\<close>

definition ids_pairs :: "int list \<Rightarrow> int \<Rightarrow> int option list \<Rightarrow> (int \<times> int) list" where
  "ids_pairs user_ids curr_user_id ids =
     concat (map (\<lambda>x. case x of
                None \<Rightarrow> []
              | Some i \<Rightarrow>
                  if i \<noteq> curr_user_id \<and> i \<in> set user_ids \<and> curr_user_id \<in> set user_ids
                  then [(i, curr_user_id)] else []) ids)"

definition tweets_pairs :: "int list \<Rightarrow> int \<Rightarrow> tweet list \<Rightarrow> (int \<times> int) list" where
  "tweets_pairs user_ids curr_user_id tweet_df =
     concat (map (\<lambda>tweet_ser. ids_pairs user_ids curr_user_id (counted_ids tweet_ser)) tweet_df)"

definition interactions :: "int list \<Rightarrow> tweet_file list \<Rightarrow> (int \<times> int) list" where
  "interactions user_ids files =
     concat (map (\<lambda>(curr_user_id, tweet_df). tweets_pairs user_ids curr_user_id tweet_df) files)"

text \<open>The counted interactions of a directory of tweet files, in the order \<open>make_graph\<close> meets them.\<close>

definition counted_interactions :: "tweet_file list \<Rightarrow> (int \<times> int) list" where
  "counted_interactions files =
     interactions (map fst (sort_key fst files)) (sort_key fst files)"

text \<open>The weight of an edge, 0 when the graph has no such edge.\<close>

definition weight_of :: "graph \<Rightarrow> edge_id \<Rightarrow> real" where
  "weight_of g e = (case map_of (edges g) e of None \<Rightarrow> 0 | Some w \<Rightarrow> w)"

text \<open>
  The shape of every edge the builder makes: distinct endpoints, both users of the
  network, and the key that \<open>generate_edge_key\<close> gives the pair.
\<close>

definition edge_ok :: "int list \<Rightarrow> edge_id \<Rightarrow> bool" where
  "edge_ok user_ids e =
     (case e of (u, v, k) \<Rightarrow>
        u \<noteq> v \<and> u \<in> set user_ids \<and> v \<in> set user_ids \<and> k = generate_edge_key u v)"

definition built_inv :: "int list \<Rightarrow> graph \<Rightarrow> bool" where
  "built_inv user_ids g =
     (distinct (map fst (edges g)) \<and> distinct (nodes g) \<and>
      list_all (\<lambda>e. edge_ok user_ids e \<and> fst e \<in> set (nodes g) \<and> fst (snd e) \<in> set (nodes g))
        (map fst (edges g)))"

text \<open>The dictionary \<open>num_tweets_per_user_dict\<close> that \<open>make_graph\<close> fills: the number of rows of each file.\<close>

definition tweet_counts :: "tweet_file list \<Rightarrow> (int \<rightharpoonup> nat)" where
  "tweet_counts files =
     foldl (\<lambda>d (curr_user_id, tweet_df). d(curr_user_id \<mapsto> length tweet_df)) Map.empty
       (sort_key fst files)"

text \<open>Every edge weight is at least 1.\<close>

definition weights_pos :: "graph \<Rightarrow> bool" where
  "weights_pos g = (\<forall>e w. map_of (edges g) e = Some w \<longrightarrow> 1 \<le> w)"

text \<open>A user may stay in the graph: the dictionary has its tweet count, at least \<open>min_number_tweets\<close>.\<close>

definition enough_tweets :: "(int \<rightharpoonup> nat) \<Rightarrow> int \<Rightarrow> int \<Rightarrow> bool" where
  "enough_tweets num_tweets_per_user_dict min_number_tweets u =
     (case num_tweets_per_user_dict u of None \<Rightarrow> False | Some n \<Rightarrow> min_number_tweets \<le> int n)"

text \<open>A row whose four columns all hold lists of user ids, as utils.py writes them.\<close>

definition mk_tweet :: "int list \<Rightarrow> int list \<Rightarrow> int list \<Rightarrow> int list \<Rightarrow> tweet" where
  "mk_tweet replied retweeted quoted mentions =
     \<lparr>replied_to_author_ids = Some (map Some replied),
      retweeted_author_ids = Some (map Some retweeted),
      quoted_author_ids = Some (map Some quoted),
      mentioned_user_ids = Some (map Some mentions)\<rparr>"

text \<open>
  Two tweet files for the examples: user 1 retweets and mentions user 0 in one tweet and
  replies to itself in another, user 0 quotes user 1 and mentions itself and user 1.
\<close>

definition example_files :: "tweet_file list" where
  "example_files =
     [(1, [mk_tweet [] [0] [] [0], mk_tweet [1] [] [] []]),
      (0, [mk_tweet [] [] [1] [], mk_tweet [] [] [] [0, 1]])]"

definition example_graph :: graph where
  "example_graph = \<lparr>nodes = [1, 0], edges = [((1, 0, ''1->0''), 1), ((0, 1, ''0->1''), 1 / 2)]\<rparr>"

text \<open>
  The tweets that the comments of test\_graph\_maker.py describe: user 0 quotes user 2,
  retweets it twice and mentions users 1, 2 and 3 in five tweets; user 1 mentions
  user 0 in one of four tweets; user 2 retweets user 0, quotes user 3 and replies to
  user 3 in three tweets; user 3 makes two tweets.
\<close>

definition test_files :: "tweet_file list" where
  "test_files =
     [(0, [mk_tweet [] [] [2] [], mk_tweet [] [2] [] [], mk_tweet [] [2] [] [],
           mk_tweet [] [] [] [1, 2, 3], mk_tweet [] [] [] []]),
      (1, [mk_tweet [] [] [] [0], mk_tweet [] [] [] [], mk_tweet [] [] [] [], mk_tweet [] [] [] []]),
      (2, [mk_tweet [] [0] [] [], mk_tweet [] [] [3] [], mk_tweet [3] [] [] []]),
      (3, [mk_tweet [] [] [] [], mk_tweet [] [] [] []])]"

text \<open>The graph of the example before normalisation, and the tweet counts of its users.\<close>

definition example_built :: graph where
  "example_built = \<lparr>nodes = [1, 0], edges = [((1, 0, ''1->0''), 2), ((0, 1, ''0->1''), 1)]\<rparr>"

definition example_counts :: "int \<rightharpoonup> nat" where
  "example_counts = [0 \<mapsto> 2, 1 \<mapsto> 2]"

text \<open>One tweet of user 1, a retweet of user 0 that also mentions user 0, and the graph it makes.\<close>

definition example_tweet :: tweet where
  "example_tweet = mk_tweet [] [0] [] [0]"

definition example_after_tweet :: graph where
  "example_after_tweet = \<lparr>nodes = [0, 1], edges = [((0, 1, ''0->1''), 1)]\<rparr>"

text \<open>A tweet of user 1 in reply to user 7, who is not in the network of users 0 and 1.\<close>

definition outside_tweet :: tweet where
  "outside_tweet = mk_tweet [7] [] [] []"

text \<open>A row whose retweeted column holds user 0 and whose quoted column is an empty cell.\<close>

definition unread_quote_tweet :: tweet where
  "unread_quote_tweet =
     \<lparr>replied_to_author_ids = Some [], retweeted_author_ids = Some [Some 0],
      quoted_author_ids = None, mentioned_user_ids = Some []\<rparr>"

text \<open>
  Three users for the pruning example: user 0 tweets once, users 1 and 2 twice; user 1
  retweets user 0, user 2 mentions user 1. With a threshold of 2 tweets user 0 goes.
\<close>

definition pruned_files :: "tweet_file list" where
  "pruned_files =
     [(0, [mk_tweet [] [] [] []]),
      (1, [mk_tweet [] [0] [] [], mk_tweet [] [] [] []]),
      (2, [mk_tweet [] [] [] [1], mk_tweet [] [] [] []])]"

definition pruned_graph :: graph where
  "pruned_graph = \<lparr>nodes = [1, 2], edges = [((1, 2, ''1->2''), 1 / 2)]\<rparr>"

text \<open>The tweets of a user in a directory: the rows of all its files together.\<close>

definition total_tweets :: "tweet_file list \<Rightarrow> int \<Rightarrow> nat" where
  "total_tweets files u = sum_list (map (\<lambda>f. length (snd f)) (filter (\<lambda>f. fst f = u) files))"

text \<open>
  A directory with two files of user 1, of two rows and of one row, and a file of user 0,
  who retweets user 1.
\<close>

definition dup_files :: "tweet_file list" where
  "dup_files =
     [(1, [mk_tweet [] [] [] [], mk_tweet [] [] [] []]),
      (1, [mk_tweet [] [] [] []]),
      (0, [mk_tweet [] [1] [] []])]"

definition dup_graph :: graph where
  "dup_graph = \<lparr>nodes = [1, 0], edges = [((1, 0, ''1->0''), 1)]\<rparr>"

text \<open>User 0 tweets once and mentions user 1, who tweets twice: user 0 is nobody's source.\<close>

definition quiet_files :: "tweet_file list" where
  "quiet_files =
     [(0, [mk_tweet [] [] [] [1]]),
      (1, [mk_tweet [] [] [] [], mk_tweet [] [] [] []])]"

section \<open>The viral centrality engine\<close>

text \<open>
  compute\_vc.py calls \<open>viral_centrality(inList, inWeight, outList, Niter = -1, tol = tol)\<close>
  of viral\_centrality.py, a file the repository does not hold. The engine below is
  written from the specification of \<open>computeViralCentrality\<close>. Arithmetic is exact: a
  finite weight is a real number, and the rounding of floating point is not modelled.
\<close>

text \<open>Modelled from the spec: an input weight, a double that is finite, infinite or not a number.\<close>

datatype weight = Finite real | PosInf | NegInf | NaN

text \<open>Modelled from the spec: the error \<open>InvalidGraphInput\<close> names the offending node and field.\<close>

datatype field = InNeighbors | InWeights | OutNeighbors

datatype vc_error = InvalidGraphInput nat field

text \<open>Modelled from the spec: a node id is valid when it lies in \<open>[0, N)\<close>.\<close>

definition id_ok :: "nat \<Rightarrow> int \<Rightarrow> bool" where
  "id_ok N j = (0 \<le> j \<and> j < int N)"

text \<open>Modelled from the spec: a weight is valid when it is finite and non-negative.\<close>

fun weight_ok :: "weight \<Rightarrow> bool" where
  "weight_ok (Finite r) = (0 \<le> r)"
| "weight_ok PosInf = False"
| "weight_ok NegInf = False"
| "weight_ok NaN = False"

text \<open>
  Modelled from the spec: the validation of the incoming adjacency (viral\_centrality.py is
  missing), node by node from node \<open>i\<close> on: the two lists of a node have equal length, its
  in-neighbours are valid ids, its weights are valid. A node that has one of the two
  lists and not the other is a length disagreement.
\<close>

fun validate_in :: "nat \<Rightarrow> nat \<Rightarrow> int list list \<Rightarrow> weight list list \<Rightarrow> vc_error option" where
  "validate_in N i [] [] = None"
| "validate_in N i [] (ws # wss) = Some (InvalidGraphInput i InWeights)"
| "validate_in N i (ns # nss) [] = Some (InvalidGraphInput i InWeights)"
| "validate_in N i (ns # nss) (ws # wss) =
     (if length ns \<noteq> length ws then Some (InvalidGraphInput i InWeights)
      else if \<not> list_all (id_ok N) ns then Some (InvalidGraphInput i InNeighbors)
      else if \<not> list_all weight_ok ws then Some (InvalidGraphInput i InWeights)
      else validate_in N (Suc i) nss wss)"

text \<open>Modelled from the spec: the ids that the outgoing adjacency references are valid.\<close>

fun validate_out :: "nat \<Rightarrow> nat \<Rightarrow> int list list \<Rightarrow> vc_error option" where
  "validate_out N i [] = None"
| "validate_out N i (ns # nss) =
     (if \<not> list_all (id_ok N) ns then Some (InvalidGraphInput i OutNeighbors)
      else validate_out N (Suc i) nss)"

definition validate :: "int list list \<Rightarrow> weight list list \<Rightarrow> int list list \<Rightarrow> vc_error option" where
  "validate inNeighbors inWeights outNeighbors =
     (case validate_in (length inNeighbors) 0 inNeighbors inWeights of
        Some e \<Rightarrow> Some e
      | None \<Rightarrow> validate_out (length inNeighbors) 0 outNeighbors)"

text \<open>The value of a weight that passed validation.\<close>

fun weight_value :: "weight \<Rightarrow> real" where
  "weight_value (Finite r) = r"
| "weight_value PosInf = 0"
| "weight_value NegInf = 0"
| "weight_value NaN = 0"

text \<open>
  Modelled from the spec: the update of one node sums, over each in-neighbour \<open>j\<close> with
  edge weight \<open>w\<close>, the contribution \<open>w * (1 + priorValue[j])\<close>.
\<close>

definition update_node :: "int list \<Rightarrow> real list \<Rightarrow> real list \<Rightarrow> real" where
  "update_node ns ws priorValue =
     sum_list (map (\<lambda>(j, w). w * (1 + priorValue ! nat j)) (zip ns ws))"

text \<open>Modelled from the spec: one synchronous sweep computes every node from the prior vector.\<close>

definition sweep :: "int list list \<Rightarrow> real list list \<Rightarrow> real list \<Rightarrow> real list" where
  "sweep inNeighbors ws priorValue =
     map (\<lambda>(ns, w). update_node ns w priorValue) (zip inNeighbors ws)"

text \<open>Modelled from the spec: \<open>delta = max over i of |new[i] - old[i]|\<close>, 0 for no node.\<close>

definition max_abs_change :: "real list \<Rightarrow> real list \<Rightarrow> real" where
  "max_abs_change new old = foldr max (map (\<lambda>(a, b). \<bar>a - b\<bar>) (zip new old)) 0"

text \<open>Modelled from the spec: the cap is off for the sentinel \<open>-1\<close>, else reached after \<open>maxIterations\<close> sweeps.\<close>

definition cap_reached :: "int \<Rightarrow> nat \<Rightarrow> bool" where
  "cap_reached maxIterations k = (maxIterations \<noteq> - 1 \<and> maxIterations \<le> int k)"

text \<open>
  Modelled from the spec: the loop of the engine, from the current vector after \<open>k\<close>
  sweeps. It returns the final vector and the number of sweeps made; it may run forever
  (the value \<open>None\<close>) when there is no cap.
\<close>

partial_function (option) vc_loop ::
  "int list list \<Rightarrow> real list list \<Rightarrow> int \<Rightarrow> real \<Rightarrow> real list \<Rightarrow> nat \<Rightarrow> (real list \<times> nat) option" where
  "vc_loop inNeighbors ws maxIterations tolerance cur k =
     (if cap_reached maxIterations k then Some (cur, k)
      else
        (let new = sweep inNeighbors ws cur
         in if max_abs_change new cur \<le> tolerance then Some (new, Suc k)
            else vc_loop inNeighbors ws maxIterations tolerance new (Suc k)))"

text \<open>Modelled from the spec: the run of the engine on validated input, from the zero vector.\<close>

definition vc_run ::
  "int list list \<Rightarrow> weight list list \<Rightarrow> int \<Rightarrow> real \<Rightarrow> (real list \<times> nat) option" where
  "vc_run inNeighbors inWeights maxIterations tolerance =
     vc_loop inNeighbors (map (map weight_value) inWeights) maxIterations tolerance
       (replicate (length inNeighbors) 0) 0"

text \<open>
  Modelled from the spec: \<open>computeViralCentrality\<close>. Validation comes first; \<open>None\<close> is a
  run that never stops.
\<close>

definition computeViralCentrality ::
  "int list list \<Rightarrow> weight list list \<Rightarrow> int list list \<Rightarrow> int \<Rightarrow> real \<Rightarrow> (vc_error + real list) option" where
  "computeViralCentrality inNeighbors inWeights outNeighbors maxIterations tolerance =
     (case validate inNeighbors inWeights outNeighbors of
        Some e \<Rightarrow> Some (Inl e)
      | None \<Rightarrow>
          map_option (\<lambda>r. Inr (fst r)) (vc_run inNeighbors inWeights maxIterations tolerance))"

text \<open>The vector after \<open>k\<close> sweeps from zero.\<close>

definition estimates :: "int list list \<Rightarrow> weight list list \<Rightarrow> nat \<Rightarrow> real list" where
  "estimates inNeighbors inWeights k =
     ((sweep inNeighbors (map (map weight_value) inWeights)) ^^ k) (replicate (length inNeighbors) 0)"

text \<open>
  The loop stops after \<open>n\<close> sweeps: the cap is reached, or sweep \<open>n\<close> changed no node by
  more than the tolerance.
\<close>

definition stops :: "int list list \<Rightarrow> weight list list \<Rightarrow> int \<Rightarrow> real \<Rightarrow> nat \<Rightarrow> bool" where
  "stops inNeighbors inWeights maxIterations tolerance n =
     (cap_reached maxIterations n \<or>
      (0 < n \<and>
       max_abs_change (estimates inNeighbors inWeights n) (estimates inNeighbors inWeights (n - 1))
         \<le> tolerance))"

text \<open>A non-negative vector that a sweep leaves as it is.\<close>

definition fixed_point :: "int list list \<Rightarrow> weight list list \<Rightarrow> real list \<Rightarrow> bool" where
  "fixed_point inNeighbors inWeights f =
     (length f = length inNeighbors \<and> list_all (\<lambda>x. 0 \<le> x) f \<and>
      sweep inNeighbors (map (map weight_value) inWeights) f = f)"

text \<open>
  The three kinds of malformed input: a node whose two incoming lists differ in length, a
  referenced node id outside \<open>[0, N)\<close>, a weight that is negative or not finite.
\<close>

definition malformed :: "int list list \<Rightarrow> weight list list \<Rightarrow> int list list \<Rightarrow> bool" where
  "malformed inNeighbors inWeights outNeighbors =
     ((\<exists>i<length inNeighbors. i < length inWeights \<and>
          length (inNeighbors ! i) \<noteq> length (inWeights ! i)) \<or>
      (\<exists>ns\<in>set inNeighbors \<union> set outNeighbors. \<exists>j\<in>set ns. \<not> id_ok (length inNeighbors) j) \<or>
      (\<exists>ws\<in>set inWeights. \<exists>w\<in>set ws. \<not> weight_ok w))"

text \<open>Node \<open>i\<close> breaks a precondition in the given field.\<close>

definition offending ::
  "int list list \<Rightarrow> weight list list \<Rightarrow> int list list \<Rightarrow> nat \<Rightarrow> field \<Rightarrow> bool" where
  "offending inNeighbors inWeights outNeighbors i f =
     (case f of
        InNeighbors \<Rightarrow>
          i < length inNeighbors \<and> \<not> list_all (id_ok (length inNeighbors)) (inNeighbors ! i)
      | InWeights \<Rightarrow>
          (i < length inNeighbors \<and> length inWeights \<le> i) \<or>
          (i < length inWeights \<and> length inNeighbors \<le> i) \<or>
          (i < length inNeighbors \<and> i < length inWeights \<and>
           (length (inNeighbors ! i) \<noteq> length (inWeights ! i) \<or>
            \<not> list_all weight_ok (inWeights ! i)))
      | OutNeighbors \<Rightarrow>
          i < length outNeighbors \<and> \<not> list_all (id_ok (length inNeighbors)) (outNeighbors ! i))"

section \<open>Keys: writing and reading back\<close>

lemma digit_char_is_digit: "d < 10 \<Longrightarrow> is_digit (digit_char d)"
  by (simp add: is_digit_def digit_char_def)

lemma digit_char_value: "d < 10 \<Longrightarrow> (of_char (digit_char d) :: nat) - 48 = d"
  by (simp add: digit_char_def)

lemma digit_char_not_gt: "d < 10 \<Longrightarrow> digit_char d \<noteq> CHR ''>''"
  by (auto simp: digit_char_def dest!: arg_cong[where f="of_char :: char \<Rightarrow> nat"])

lemma digit_char_not_minus: "d < 10 \<Longrightarrow> digit_char d \<noteq> CHR ''-''"
  by (auto simp: digit_char_def dest!: arg_cong[where f="of_char :: char \<Rightarrow> nat"])

lemma str_nat_digits: "list_all is_digit (str_nat n)"
proof (induction n rule: str_nat.induct)
  case (1 n)
  show ?case
  proof (cases "n < 10")
    case True
    then show ?thesis by (subst str_nat.simps) (simp add: digit_char_is_digit)
  next
    case False
    with 1 show ?thesis by (subst str_nat.simps) (simp add: digit_char_is_digit)
  qed
qed

lemma str_nat_nonempty: "str_nat n \<noteq> []"
  by (subst str_nat.simps) simp

lemma nat_of_digits_snoc: "nat_of_digits a (cs @ [c]) = 10 * nat_of_digits a cs + (of_char c - 48)"
  by (induction cs arbitrary: a) simp_all

lemma nat_of_digits_str_nat: "nat_of_digits 0 (str_nat n) = n"
proof (induction n rule: str_nat.induct)
  case (1 n)
  show ?case
  proof (cases "n < 10")
    case True
    then show ?thesis by (subst str_nat.simps) (simp add: digit_char_value)
  next
    case False
    with 1 show ?thesis
      by (subst str_nat.simps) (simp add: nat_of_digits_snoc digit_char_value)
  qed
qed

lemma is_digit_not_minus: "is_digit c \<Longrightarrow> c \<noteq> CHR ''-''"
  by (auto simp: is_digit_def)

lemma is_digit_not_gt: "is_digit c \<Longrightarrow> c \<noteq> CHR ''>''"
  by (auto simp: is_digit_def)

lemma py_int_str_int: "py_int (str_int i) = Inr i"
proof (cases "i < 0")
  case True
  then show ?thesis
    by (simp add: py_int_def str_int_def str_nat_nonempty str_nat_digits nat_of_digits_str_nat)
next
  case False
  obtain c cs where s: "str_nat (nat i) = c # cs"
    using str_nat_nonempty [of "nat i"] by (cases "str_nat (nat i)") auto
  have d: "list_all is_digit (c # cs)"
    using str_nat_digits [of "nat i"] s by simp
  then have "c \<noteq> CHR ''-''" by (simp add: is_digit_not_minus)
  moreover have "nat_of_digits 0 (c # cs) = nat i"
    using nat_of_digits_str_nat [of "nat i"] s by simp
  ultimately show ?thesis
    using False d s by (simp add: py_int_def str_int_def del: nat_of_digits.simps)
qed

lemma str_int_no_gt: "CHR ''>'' \<notin> set (str_int i)"
  using str_nat_digits [of "nat i"] str_nat_digits [of "nat (- i)"]
  by (auto simp: str_int_def list_all_iff dest: is_digit_not_gt)

lemma split_arrow_no_gt: "CHR ''>'' \<notin> set s \<Longrightarrow> split_arrow s = [s]"
  by (induction s rule: split_arrow.induct) auto

lemma split_arrow_append:
  "CHR ''>'' \<notin> set s \<Longrightarrow> split_arrow (s @ CHR ''-'' # CHR ''>'' # t) = s # split_arrow t"
proof (induction s)
  case Nil
  then show ?case by simp
next
  case (Cons c s)
  then obtain d cs where e: "s @ CHR ''-'' # CHR ''>'' # t = d # cs" and "d \<noteq> CHR ''>''"
    by (cases s) auto
  with Cons show ?case by simp
qed

lemma parse_generate_edge_key: "parse_edge_key (generate_edge_key u v) = Inr (u, v)"
proof -
  have "split_arrow (generate_edge_key u v) = [str_int u, str_int v]"
    using split_arrow_append [OF str_int_no_gt, of u "str_int v"] split_arrow_no_gt [OF str_int_no_gt, of v]
    by (simp add: generate_edge_key_def)
  then show ?thesis
    by (simp add: parse_edge_key_def py_int_str_int)
qed

section \<open>The edges of one tweet\<close>

lemma add_mention_edges_filter:
  "add_mention_edges g ms rrq c uids = add_edges_from g (filter (\<lambda>m. m \<notin> set rrq) ms) c uids"
  by (induction ms arbitrary: g) (auto split: option.splits)

lemma add_edges_from_append:
  "add_edges_from g (xs @ ys) c uids =
     (case add_edges_from g xs c uids of Inl e \<Rightarrow> Inl e | Inr g1 \<Rightarrow> add_edges_from g1 ys c uids)"
  by (induction g xs c uids rule: add_edges_from.induct) auto

lemma process_potential_edges_counted:
  assumes "process_potential_edges c uids tw g = Inr g'"
  shows "add_edges_from g (counted_ids tw) c uids = Inr g'"
  using assms
  by (auto simp: process_potential_edges_def reply_edges_def retweet_quote_edges_def
      mention_edges_def counted_ids_def rrq_ids_def add_mention_edges_filter add_edges_from_append
      split: sum.splits option.splits)

lemma process_tweets_counted:
  "process_tweets c uids g tws = Inr g' \<Longrightarrow>
   add_edges_from g (concat (map counted_ids tws)) c uids = Inr g'"
  by (induction tws arbitrary: g)
     (auto simp: add_edges_from_append dest!: process_potential_edges_counted split: sum.splits)

lemma edges_add_node: "edges (add_node g n) = edges g"
  by (simp add: add_node_def)

lemma set_nodes_add_node: "set (nodes (add_node g n)) = insert n (set (nodes g))"
  by (auto simp: add_node_def)

lemma distinct_nodes_add_node: "distinct (nodes g) \<Longrightarrow> distinct (nodes (add_node g n))"
  by (simp add: add_node_def)

lemma add_or_update_skip:
  "\<not> (s \<noteq> d \<and> s \<in> set uids \<and> d \<in> set uids) \<Longrightarrow> add_or_update_edge_in_graph g s d uids = g"
  by (auto simp: add_or_update_edge_in_graph_def)

lemma map_of_add_or_update:
  "s \<noteq> d \<Longrightarrow> s \<in> set uids \<Longrightarrow> d \<in> set uids \<Longrightarrow>
   map_of (edges (add_or_update_edge_in_graph g s d uids)) =
     (map_of (edges g))((s, d, generate_edge_key s d) \<mapsto>
        (case map_of (edges g) (s, d, generate_edge_key s d) of None \<Rightarrow> 1 | Some w \<Rightarrow> w + 1))"
  by (auto simp: add_or_update_edge_in_graph_def get_edge_data_def add_edge_def Let_def
      edges_add_node update_conv' split: option.splits)

lemma keys_add_or_update:
  "s \<noteq> d \<Longrightarrow> s \<in> set uids \<Longrightarrow> d \<in> set uids \<Longrightarrow>
   fst ` set (edges (add_or_update_edge_in_graph g s d uids)) =
     insert (s, d, generate_edge_key s d) (fst ` set (edges g))"
  by (auto simp: add_or_update_edge_in_graph_def get_edge_data_def add_edge_def Let_def
      edges_add_node dom_update split: option.splits)

lemma weight_of_add_or_update:
  "weight_of (add_or_update_edge_in_graph g s d uids) e =
     weight_of g e +
     (if s \<noteq> d \<and> s \<in> set uids \<and> d \<in> set uids \<and> e = (s, d, generate_edge_key s d) then 1 else 0)"
proof (cases "s \<noteq> d \<and> s \<in> set uids \<and> d \<in> set uids")
  case True
  then show ?thesis
    by (simp add: weight_of_def map_of_add_or_update split: option.splits)
next
  case False
  then show ?thesis
    using add_or_update_skip [OF False] by auto
qed

lemma nodes_add_or_update:
  "set (nodes g) \<subseteq> set (nodes (add_or_update_edge_in_graph g s d uids))"
  by (auto simp: add_or_update_edge_in_graph_def add_edge_def Let_def set_nodes_add_node
      split: option.splits)

lemma built_inv_add_or_update:
  assumes "built_inv uids g"
  shows "built_inv uids (add_or_update_edge_in_graph g s d uids)"
proof (cases "s \<noteq> d \<and> s \<in> set uids \<and> d \<in> set uids")
  case False
  then show ?thesis using assms add_or_update_skip [OF False] by simp
next
  case True
  let ?k = "(s, d, generate_edge_key s d)"
  show ?thesis
  proof (cases "get_edge_data g s d (generate_edge_key s d)")
    case None
    then have e: "add_or_update_edge_in_graph g s d uids = add_edge g s d (generate_edge_key s d) 1"
      using True by (simp add: add_or_update_edge_in_graph_def)
    show ?thesis
      using assms True unfolding e
      by (auto simp: built_inv_def add_edge_def Let_def edges_add_node set_nodes_add_node
          distinct_nodes_add_node distinct_update list_all_iff dom_update edge_ok_def)
  next
    case (Some w)
    then have e: "add_or_update_edge_in_graph g s d uids =
        g\<lparr>edges := AList.update ?k (w + 1) (edges g)\<rparr>"
      using True by (simp add: add_or_update_edge_in_graph_def)
    have "?k \<in> fst ` set (edges g)"
      using Some by (auto simp: get_edge_data_def dest!: map_of_SomeD intro: rev_image_eqI)
    then show ?thesis
      using assms True unfolding e
      by (auto simp: built_inv_def distinct_update list_all_iff dom_update edge_ok_def)
  qed
qed

lemma add_edges_from_invariant:
  assumes "add_edges_from g ids c uids = Inr g'" and "P g"
    and "\<And>h i. P h \<Longrightarrow> P (add_or_update_edge_in_graph h i c uids)"
  shows "P g'"
  using assms
  by (induction g ids c uids rule: add_edges_from.induct) auto

section \<open>Invariants of the built graph\<close>

lemma process_tweets_built_inv:
  assumes "process_tweets c uids g tws = Inr g'" and "built_inv uids g"
  shows "built_inv uids g'"
  using process_tweets_counted [OF assms(1)] assms(2)
  by (rule add_edges_from_invariant) (rule built_inv_add_or_update)

lemma process_files_built_inv:
  "process_files uids st files = Inr st' \<Longrightarrow> built_inv uids (fst st) \<Longrightarrow> built_inv uids (fst st')"
proof (induction files arbitrary: st)
  case Nil
  then show ?case by simp
next
  case (Cons f files)
  obtain c tws where f: "f = (c, tws)" by (cases f)
  from Cons.prems(1) obtain g1 where
    g1: "process_tweets c uids (fst st) tws = Inr g1" and
    rest: "process_files uids (g1, (snd st)(c \<mapsto> length tws)) files = Inr st'"
    by (auto simp: f split: sum.splits)
  have "built_inv uids g1"
    using g1 Cons.prems(2) by (rule process_tweets_built_inv)
  then show ?case
    using Cons.IH [OF rest] by simp
qed

lemma built_inv_empty: "built_inv uids empty_graph"
  by (simp add: built_inv_def empty_graph_def)

lemma build_edges_built_inv:
  assumes "build_edges files = Inr (g, d)"
  shows "built_inv (map fst (sort_key fst files)) g"
  using process_files_built_inv [of "map fst (sort_key fst files)" "(empty_graph, Map.empty)"
      "sort_key fst files" "(g, d)"] assms built_inv_empty
  by (simp add: build_edges_def Let_def)

lemma set_weight_Inr:
  assumes "set_weight g u v k w = Inr g'"
  shows "map fst (edges g') = map fst (edges g)" and "nodes g' = nodes g"
    and "map_of (edges g') = (map_of (edges g))((u, v, k) \<mapsto> w)"
proof -
  from assms obtain w0 where w0: "map_of (edges g) (u, v, k) = Some w0"
    and g': "g' = g\<lparr>edges := AList.update (u, v, k) w (edges g)\<rparr>"
    by (auto simp: set_weight_def get_edge_data_def split: option.splits)
  from w0 have "(u, v, k) \<in> set (map fst (edges g))"
    by (auto dest!: map_of_SomeD intro: rev_image_eqI)
  then show "map fst (edges g') = map fst (edges g)"
    by (simp add: g' update_keys)
  show "nodes g' = nodes g" by (simp add: g')
  show "map_of (edges g') = (map_of (edges g))((u, v, k) \<mapsto> w)"
    by (simp add: g' update_conv')
qed

lemma normalize_edge_shape:
  assumes "normalize_edge d m (g, etr, ntr) e = Inr (g', etr', ntr')"
  shows "map fst (edges g') = map fst (edges g) \<and> nodes g' = nodes g"
  using assms
  by (auto simp: normalize_edge_def split: prod.splits sum.splits option.splits if_splits
      dest: set_weight_Inr(1,2))

lemma normalize_loop_shape:
  "normalize_loop d m st es = Inr st' \<Longrightarrow>
   map fst (edges (fst st')) = map fst (edges (fst st)) \<and> nodes (fst st') = nodes (fst st)"
proof (induction es arbitrary: st)
  case Nil
  then show ?case by simp
next
  case (Cons e es)
  from Cons.prems obtain st1 where s1: "normalize_edge d m st e = Inr st1"
    and rest: "normalize_loop d m st1 es = Inr st'"
    by (auto split: sum.splits)
  have "map fst (edges (fst st1)) = map fst (edges (fst st)) \<and> nodes (fst st1) = nodes (fst st)"
    using normalize_edge_shape [of d m "fst st" "fst (snd st)" "snd (snd st)" e
        "fst st1" "fst (snd st1)" "snd (snd st1)"] s1 by simp
  with Cons.IH [OF rest] show ?case by simp
qed

lemma remove_edges_Inr:
  "remove_edges g es = Inr g' \<Longrightarrow>
   edges g' = filter (\<lambda>p. fst p \<notin> set es) (edges g) \<and> nodes g' = nodes g"
proof (induction es arbitrary: g)
  case Nil
  then show ?case by simp
next
  case (Cons e es)
  from Cons.prems obtain g1 where g1: "remove_edge g e = Inr g1" and rest: "remove_edges g1 es = Inr g'"
    by (auto split: sum.splits)
  from g1 have "edges g1 = filter (\<lambda>p. fst p \<noteq> e) (edges g)" and "nodes g1 = nodes g"
    by (auto simp: remove_edge_def AList.delete_eq case_prod_unfold split: if_splits
        intro!: filter_cong)
  with Cons.IH [OF rest] show ?case
    by (auto intro: filter_cong)
qed

lemma remove_nodes_Inr:
  "remove_nodes g ns = Inr g' \<Longrightarrow>
   edges g' = filter (\<lambda>((u, v, k), w). u \<notin> set ns \<and> v \<notin> set ns) (edges g) \<and>
   nodes g' = filter (\<lambda>n. n \<notin> set ns) (nodes g)"
proof (induction ns arbitrary: g)
  case Nil
  then show ?case by simp
next
  case (Cons n ns)
  from Cons.prems obtain g1 where g1: "remove_node g n = Inr g1" and rest: "remove_nodes g1 ns = Inr g'"
    by (auto split: sum.splits)
  from g1 have "edges g1 = filter (\<lambda>((u, v, k), w). u \<noteq> n \<and> v \<noteq> n) (edges g)"
    and "nodes g1 = filter (\<lambda>x. x \<noteq> n) (nodes g)"
    by (auto simp: remove_node_def removeAll_filter_not_eq split: if_splits intro: filter_cong)
  with Cons.IH [OF rest] show ?case
    by (auto intro!: filter_cong)
qed

lemma normalize_keys_subset:
  assumes "normalize_graph_edge_weights g d m = Inr g'"
  shows "fst ` set (edges g') \<subseteq> fst ` set (edges g)"
proof -
  from assms obtain g1 etr ntr g2 where
    l: "normalize_loop d m (g, [], []) (edges_view g) = Inr (g1, etr, ntr)" and
    e: "remove_edges g1 etr = Inr g2" and n: "remove_nodes g2 ntr = Inr g'"
    by (auto simp: normalize_graph_edge_weights_def split: sum.splits prod.splits)
  have "map fst (edges g1) = map fst (edges g)"
    using normalize_loop_shape [OF l] by simp
  then have "fst ` set (edges g1) = fst ` set (edges g)"
    by (metis list.set_map)
  moreover have "set (edges g') \<subseteq> set (edges g1)"
    using remove_edges_Inr [OF e] remove_nodes_Inr [OF n] by auto
  ultimately show ?thesis by blast
qed

section \<open>Running the builder on an example\<close>

lemma digit_char_eval:
  "digit_char 0 = CHR ''0''" "digit_char 1 = CHR ''1''" "digit_char 2 = CHR ''2''"
  "digit_char 3 = CHR ''3''" "digit_char 4 = CHR ''4''" "digit_char 5 = CHR ''5''"
  "digit_char 6 = CHR ''6''" "digit_char 7 = CHR ''7''" "digit_char 8 = CHR ''8''"
  "digit_char 9 = CHR ''9''" "digit_char (Suc 0) = CHR ''1''"
  by (simp_all add: digit_char_def char_of_def bit_Suc_0_iff)

lemma binade_fuel:
  "binade (numeral k) x e =
     (if 2 \<le> x then binade (pred_numeral k) (x / 2) (e + 1)
      else if x < 1 then binade (pred_numeral k) (2 * x) (e - 1)
      else e)"
  by (simp add: numeral_eq_Suc)

lemmas truediv_defs = py_truediv_def binade_fuel pow2_def round_half_even_def Let_def

lemma py_truediv_Inr_pos: "py_truediv a b = Inr q \<Longrightarrow> 0 < b"
  by (cases "b = 0") (simp_all add: py_truediv_def)

text \<open>The quotients of the examples: each is a double, so the division is exact.\<close>

lemma truediv_eval:
  "py_truediv 2 (Suc (Suc 0)) = Inr 1"
  "py_truediv 1 (Suc (Suc 0)) = Inr (1 / 2)"
  "py_truediv 1 (Suc 0) = Inr 1"
  by (simp_all add: truediv_defs)

lemmas builder_defs = truediv_eval make_graph_def build_edges_def process_potential_edges_def reply_edges_def
  retweet_quote_edges_def mention_edges_def add_or_update_edge_in_graph_def generate_edge_key_def
  get_edge_data_def add_edge_def add_node_def empty_graph_def str_int_def str_nat.simps digit_char_eval
  normalize_graph_edge_weights_def edges_view_def normalize_edge_def parse_edge_key_def py_int_def
  is_digit_def set_weight_def remove_edge_def remove_node_def

lemma make_graph_example: "make_graph example_files 1 = Inr example_graph"
  by (simp add: builder_defs example_files_def example_graph_def mk_tweet_def)

text \<open>
  The weights that \<open>test_build_graph\<close> asserts, as the doubles they are: 1 + 1 / 3, 0.25,
  0.5, 0.2, 0.2 and 1.0.
\<close>

lemma truediv_test:
  "py_truediv 4 (Suc (Suc (Suc 0))) = Inr (6004799503160661 / 4503599627370496)"
  "py_truediv 1 (Suc (Suc (Suc (Suc 0)))) = Inr (1 / 4)"
  "py_truediv 1 (Suc (Suc (Suc (Suc (Suc 0))))) = Inr (3602879701896397 / 18014398509481984)"
  by (simp_all add: truediv_defs)

lemma test_build_graph:
  "make_graph test_files 1 =
     Inr \<lparr>nodes = [2, 0, 1, 3],
          edges = [((2, 0, ''2->0''), 6004799503160661 / 4503599627370496),
                   ((1, 0, ''1->0''), 1 / 4),
                   ((3, 0, ''3->0''), 1 / 2),
                   ((0, 1, ''0->1''), 3602879701896397 / 18014398509481984),
                   ((0, 2, ''0->2''), 3602879701896397 / 18014398509481984),
                   ((3, 2, ''3->2''), 1)]\<rparr>"
  by (simp add: builder_defs truediv_test test_files_def mk_tweet_def)

section \<open>The builder makes no self-loop\<close>

text \<open>
  C8. \<open>add_or_update_edge_in_graph\<close> leaves the graph as it is unless the source differs
  from the destination and both are users of the network; and every edge of a graph
  that \<open>make_graph\<close> returns joins two distinct users of the network.
\<close>

theorem builder_no_self_loop:
  "(\<not> (s \<noteq> t \<and> s \<in> set user_ids \<and> t \<in> set user_ids) \<longrightarrow>
      add_or_update_edge_in_graph g0 s t user_ids = g0) \<and>
   (make_graph files min_number_tweets = Inr g \<longrightarrow>
      (\<forall>u v k w. ((u, v, k), w) \<in> set (edges g) \<longrightarrow>
         u \<noteq> v \<and> u \<in> fst ` set files \<and> v \<in> fst ` set files))"
proof -
  have skip: "add_or_update_edge_in_graph g0 s t user_ids = g0"
    if "\<not> (s \<noteq> t \<and> s \<in> set user_ids \<and> t \<in> set user_ids)"
    using that by (rule add_or_update_skip)
  have built: "u \<noteq> v \<and> u \<in> fst ` set files \<and> v \<in> fst ` set files"
    if mk: "make_graph files min_number_tweets = Inr g" and e: "((u, v, k), w) \<in> set (edges g)"
    for u v k w
  proof -
    from mk obtain gb d where b: "build_edges files = Inr (gb, d)"
      and n: "normalize_graph_edge_weights gb d min_number_tweets = Inr g"
      by (auto simp: make_graph_def split: sum.splits prod.splits)
    from e have "(u, v, k) \<in> fst ` set (edges g)" by (auto intro: rev_image_eqI)
    then have "(u, v, k) \<in> fst ` set (edges gb)"
      using normalize_keys_subset [OF n] by blast
    then have "edge_ok (map fst (sort_key fst files)) (u, v, k)"
      using build_edges_built_inv [OF b] by (auto simp: built_inv_def list_all_iff)
    then show ?thesis
      by (simp add: edge_ok_def)
  qed
  from skip built show ?thesis by blast
qed

theorem builder_no_self_loop_witness:
  "add_or_update_edge_in_graph empty_graph 1 1 [0, 1] = empty_graph \<and>
   make_graph example_files 1 = Inr example_graph \<and>
   list_all (\<lambda>((u, v, k), w). u \<noteq> v \<and> u \<in> fst ` set example_files \<and> v \<in> fst ` set example_files)
     (edges example_graph)"
proof -
  have "\<not> ((1::int) \<noteq> 1 \<and> (1::int) \<in> set [0, 1] \<and> (1::int) \<in> set [0, 1])"
    by simp
  with builder_no_self_loop [of 1 1 "[0, 1]" empty_graph example_files 1 example_graph]
    make_graph_example
  have "add_or_update_edge_in_graph empty_graph 1 1 [0, 1] = empty_graph"
    and "\<forall>u v k w. ((u, v, k), w) \<in> set (edges example_graph) \<longrightarrow>
         u \<noteq> v \<and> u \<in> fst ` set example_files \<and> v \<in> fst ` set example_files"
    by blast+
  then show ?thesis
    using make_graph_example by (fastforce simp: list_all_iff)
qed

section \<open>Edge weights count interactions\<close>

lemma ids_pairs_append: "ids_pairs uids c (xs @ ys) = ids_pairs uids c xs @ ids_pairs uids c ys"
  by (simp add: ids_pairs_def)

lemma ids_pairs_concat:
  "ids_pairs uids c (concat xss) = concat (map (ids_pairs uids c) xss)"
  by (induction xss) (simp_all add: ids_pairs_append, simp add: ids_pairs_def)

lemma ids_pairs_Cons:
  "ids_pairs uids c (Some i # ids) =
     (if i \<noteq> c \<and> i \<in> set uids \<and> c \<in> set uids then [(i, c)] else []) @ ids_pairs uids c ids"
  by (simp add: ids_pairs_def)

lemma add_edges_from_weight:
  "add_edges_from g ids c uids = Inr g' \<Longrightarrow>
   weight_of g' (u, v, k) =
     weight_of g (u, v, k) +
     (if k = generate_edge_key u v then real (count_list (ids_pairs uids c ids) (u, v)) else 0)"
proof (induction g ids c uids rule: add_edges_from.induct)
  case (1 g c uids)
  then show ?case by (simp add: ids_pairs_def)
next
  case (2 g ids c uids)
  then show ?case by simp
next
  case (3 g i ids c uids)
  from "3.prems" have "add_edges_from (add_or_update_edge_in_graph g i c uids) ids c uids = Inr g'"
    by simp
  from "3.IH" [OF this] show ?case
    by (auto simp: weight_of_add_or_update ids_pairs_Cons)
qed

lemma process_tweets_weight:
  assumes "process_tweets c uids g tws = Inr g'"
  shows "weight_of g' (u, v, k) =
     weight_of g (u, v, k) +
     (if k = generate_edge_key u v then real (count_list (tweets_pairs uids c tws) (u, v)) else 0)"
  using add_edges_from_weight [OF process_tweets_counted [OF assms], of u v k]
  by (simp add: tweets_pairs_def ids_pairs_concat comp_def)

lemma count_list_append': "count_list (xs @ ys) x = count_list xs x + count_list ys x"
  by (induction xs) auto

lemma process_files_weight:
  "process_files uids st files = Inr st' \<Longrightarrow>
   weight_of (fst st') (u, v, k) =
     weight_of (fst st) (u, v, k) +
     (if k = generate_edge_key u v then real (count_list (interactions uids files) (u, v)) else 0)"
proof (induction files arbitrary: st)
  case Nil
  then show ?case by (simp add: interactions_def)
next
  case (Cons f files)
  obtain c tws where f: "f = (c, tws)" by (cases f)
  from Cons.prems obtain g1 where
    g1: "process_tweets c uids (fst st) tws = Inr g1" and
    rest: "process_files uids (g1, (snd st)(c \<mapsto> length tws)) files = Inr st'"
    by (auto simp: f split: sum.splits)
  show ?case
    using Cons.IH [OF rest] process_tweets_weight [OF g1, of u v k]
    by (simp add: f interactions_def count_list_append')
qed

lemma process_files_invariant:
  assumes "process_files uids st files = Inr st'" and "P (fst st)"
    and step: "\<And>h i c. P h \<Longrightarrow> P (add_or_update_edge_in_graph h i c uids)"
  shows "P (fst st')"
  using assms(1,2)
proof (induction files arbitrary: st)
  case Nil
  then show ?case by simp
next
  case (Cons f files)
  obtain c tws where f: "f = (c, tws)" by (cases f)
  from Cons.prems(1) obtain g1 where
    g1: "process_tweets c uids (fst st) tws = Inr g1" and
    rest: "process_files uids (g1, (snd st)(c \<mapsto> length tws)) files = Inr st'"
    by (auto simp: f split: sum.splits)
  have "P g1"
    using process_tweets_counted [OF g1] Cons.prems(2) by (rule add_edges_from_invariant) (rule step)
  then show ?case
    using Cons.IH [OF rest] by simp
qed

lemma build_edges_weight:
  assumes "build_edges files = Inr (g, d)"
  shows "weight_of g (u, v, k) =
     (if k = generate_edge_key u v then real (count_list (counted_interactions files) (u, v)) else 0)"
  using process_files_weight [of "map fst (sort_key fst files)" "(empty_graph, Map.empty)"
      "sort_key fst files" "(g, d)" u v k] assms
  by (simp add: build_edges_def Let_def counted_interactions_def weight_of_def empty_graph_def)

lemma weights_pos_add_or_update:
  assumes "weights_pos g"
  shows "weights_pos (add_or_update_edge_in_graph g s t uids)"
proof (cases "s \<noteq> t \<and> s \<in> set uids \<and> t \<in> set uids")
  case True
  show ?thesis
    unfolding weights_pos_def
  proof (intro allI impI)
    fix e w
    assume m: "map_of (edges (add_or_update_edge_in_graph g s t uids)) e = Some w"
    show "1 \<le> w"
    proof (cases "e = (s, t, generate_edge_key s t)")
      case False
      with m True have "map_of (edges g) e = Some w"
        by (simp add: map_of_add_or_update)
      with assms show ?thesis unfolding weights_pos_def by blast
    next
      case e: True
      show ?thesis
      proof (cases "map_of (edges g) e")
        case None
        with m True e show ?thesis by (simp add: map_of_add_or_update)
      next
        case (Some w0)
        with assms have "1 \<le> w0" unfolding weights_pos_def by blast
        with m True e Some show ?thesis by (simp add: map_of_add_or_update)
      qed
    qed
  qed
next
  case False
  then show ?thesis using assms add_or_update_skip [OF False] by simp
qed

lemma build_edges_weights_pos:
  assumes "build_edges files = Inr (g, d)"
  shows "weights_pos g"
  using process_files_invariant [of "map fst (sort_key fst files)" "(empty_graph, Map.empty)"
      "sort_key fst files" "(g, d)" weights_pos] assms weights_pos_add_or_update
  by (simp add: build_edges_def Let_def weights_pos_def empty_graph_def)

lemma length_filter_same_key:
  "distinct (map fst xs) \<Longrightarrow> (\<And>x. x \<in> set xs \<Longrightarrow> P x \<Longrightarrow> fst x = e) \<Longrightarrow>
   length (filter P xs) \<le> Suc 0"
proof (induction xs)
  case Nil
  then show ?case by simp
next
  case (Cons x xs)
  show ?case
  proof (cases "P x")
    case True
    then have "fst x = e" using Cons.prems(2) by simp
    moreover have "e \<notin> fst ` set xs"
      using Cons.prems(1) \<open>fst x = e\<close> by auto
    moreover have "\<forall>y\<in>set xs. P y \<longrightarrow> fst y = e"
      using Cons.prems(2) by simp
    ultimately have "filter P xs = []"
      unfolding filter_empty_conv by (metis imageI)
    with True show ?thesis by simp
  next
    case False
    then show ?thesis using Cons by simp
  qed
qed

section \<open>One edge per ordered pair, weighted by its interactions\<close>

lemma build_edges_example: "build_edges example_files = Inr (example_built, example_counts)"
  by (simp add: builder_defs example_files_def mk_tweet_def example_built_def example_counts_def
      numeral_2_eq_2)

lemma counted_interactions_example: "counted_interactions example_files = [(1, 0), (1, 0), (0, 1)]"
  by (simp add: counted_interactions_def interactions_def tweets_pairs_def ids_pairs_def
      counted_ids_def rrq_ids_def example_files_def mk_tweet_def)

text \<open>
  C10. In the graph that the builder has before normalisation, at most one edge leads from
  \<open>u\<close> to \<open>v\<close> for every ordered pair; every edge has the key of its endpoints, and its
  weight is the number of counted interactions of that pair, a positive integer.
\<close>

theorem built_edges_count_interactions:
  assumes "build_edges files = Inr (g, d)"
  shows "(\<forall>u v. length (filter (\<lambda>((a, b, k), w). a = u \<and> b = v) (edges g)) \<le> 1) \<and>
    (\<forall>u v k w. ((u, v, k), w) \<in> set (edges g) \<longrightarrow>
       k = generate_edge_key u v \<and>
       w = real (count_list (counted_interactions files) (u, v)) \<and> 1 \<le> w)"
proof -
  have inv: "built_inv (map fst (sort_key fst files)) g"
    using assms by (rule build_edges_built_inv)
  then have dist: "distinct (map fst (edges g))"
    by (simp add: built_inv_def)
  have key: "k = generate_edge_key u v" if "((u, v, k), w) \<in> set (edges g)" for u v k w
  proof -
    from that have "(u, v, k) \<in> set (map fst (edges g))" by force
    with inv have "edge_ok (map fst (sort_key fst files)) (u, v, k)"
      unfolding built_inv_def list_all_iff by blast
    then show ?thesis by (simp add: edge_ok_def)
  qed
  have one: "length (filter (\<lambda>((a, b, k), w). a = u \<and> b = v) (edges g)) \<le> 1" for u v
  proof -
    have "fst x = (u, v, generate_edge_key u v)"
      if "x \<in> set (edges g)" and "(\<lambda>((a, b, k), w). a = u \<and> b = v) x" for x
      using that key [of "fst (fst x)" "fst (snd (fst x))" "snd (snd (fst x))" "snd x"]
      by (auto simp: case_prod_unfold prod_eq_iff)
    with dist show ?thesis
      using length_filter_same_key [of "edges g" "\<lambda>((a, b, k), w). a = u \<and> b = v"
          "(u, v, generate_edge_key u v)"] by simp
  qed
  have cnt: "w = real (count_list (counted_interactions files) (u, v)) \<and> 1 \<le> w"
    if e: "((u, v, k), w) \<in> set (edges g)" for u v k w
  proof -
    from e dist have m: "map_of (edges g) (u, v, k) = Some w"
      by (simp add: map_of_eq_Some_iff)
    then have "weight_of g (u, v, k) = w"
      by (simp add: weight_of_def)
    moreover have "1 \<le> w"
      using build_edges_weights_pos [OF assms] m unfolding weights_pos_def by blast
    ultimately show ?thesis
      using build_edges_weight [OF assms, of u v k] key [OF e] by simp
  qed
  from one key cnt show ?thesis by blast
qed

theorem built_edges_count_interactions_witness:
  "build_edges example_files = Inr (example_built, example_counts) \<and>
   length (filter (\<lambda>((a, b, k), w). a = 1 \<and> b = 0) (edges example_built)) \<le> 1 \<and>
   list_all (\<lambda>((u, v, k), w). k = generate_edge_key u v \<and>
       w = real (count_list (counted_interactions example_files) (u, v)) \<and> 1 \<le> w)
     (edges example_built)"
proof -
  note t = built_edges_count_interactions [OF build_edges_example]
  from t have "length (filter (\<lambda>((a, b, k), w). a = 1 \<and> b = 0) (edges example_built)) \<le> 1"
    by blast
  moreover from t have "\<forall>u v k w. ((u, v, k), w) \<in> set (edges example_built) \<longrightarrow>
       k = generate_edge_key u v \<and>
       w = real (count_list (counted_interactions example_files) (u, v)) \<and> 1 \<le> w"
    by blast
  then have "list_all (\<lambda>((u, v, k), w). k = generate_edge_key u v \<and>
       w = real (count_list (counted_interactions example_files) (u, v)) \<and> 1 \<le> w)
     (edges example_built)"
    unfolding list_all_iff by fast
  ultimately show ?thesis
    using build_edges_example by blast
qed

section \<open>The direction of an edge and the weight one tweet adds\<close>


lemma count_list_ids_pairs:
  "B \<noteq> c \<Longrightarrow> B \<in> set uids \<Longrightarrow> c \<in> set uids \<Longrightarrow>
   count_list (ids_pairs uids c ids) (B, c) = count_list ids (Some B)"
proof (induction ids)
  case Nil
  then show ?case by (simp add: ids_pairs_def)
next
  case (Cons x ids)
  then show ?case
    by (cases x) (auto simp: ids_pairs_Cons, simp_all add: ids_pairs_def)
qed

lemma process_potential_edges_weight:
  assumes "process_potential_edges c uids tw g = Inr g'"
    and "B \<noteq> c" and "B \<in> set uids" and "c \<in> set uids"
  shows "weight_of g' (B, c, generate_edge_key B c) =
    weight_of g (B, c, generate_edge_key B c) + real (count_list (counted_ids tw) (Some B))"
  using add_edges_from_weight [OF process_potential_edges_counted [OF assms(1)],
      of B c "generate_edge_key B c"] assms(2-)
  by (simp add: count_list_ids_pairs)


lemma add_or_update_other_dest:
  "v \<noteq> c \<Longrightarrow>
   get_edge_data (add_or_update_edge_in_graph h i c uids) u v k = get_edge_data h u v k"
  by (cases "i \<noteq> c \<and> i \<in> set uids \<and> c \<in> set uids")
     (simp_all add: get_edge_data_def map_of_add_or_update add_or_update_skip)

lemma process_potential_edges_other_dest:
  assumes "process_potential_edges c uids tw g = Inr g'" and "v \<noteq> c"
  shows "get_edge_data g' u v k = get_edge_data g u v k"
  using process_potential_edges_counted [OF assms(1)]
  by (rule add_edges_from_invariant [where P = "\<lambda>h. get_edge_data h u v k = get_edge_data g u v k"])
     (simp_all add: add_or_update_other_dest assms(2))

lemma process_example_tweet:
  "process_potential_edges 1 [0, 1] example_tweet empty_graph = Inr example_after_tweet"
  by (simp add: builder_defs example_tweet_def example_after_tweet_def mk_tweet_def)

lemma rrq_ids_example_tweet: "rrq_ids example_tweet = [Some 0]"
  by (simp add: rrq_ids_def example_tweet_def mk_tweet_def)

text \<open>
  The two columns of the second \<open>try\<close> block stand or fall together: when the quoted
  cell is empty, the retweet of user 0 by user 1 adds no edge.
\<close>

lemma retweet_lost_with_unread_quote:
  "process_potential_edges 1 [0, 1] unread_quote_tweet empty_graph = Inr empty_graph"
  by (simp add: builder_defs unread_quote_tweet_def)

text \<open>
  C6, as the code has it. Processing a tweet of user \<open>A\<close> leaves every edge whose
  destination is not \<open>A\<close> as it was, so no edge \<open>A -> B\<close> gains weight. A user \<open>B\<close> of the
  network, other than \<open>A\<close>, gains at least 1 on the edge \<open>B -> A\<close> when \<open>B\<close> is among the
  replied-to ids, or among the retweeted and quoted ids of a row whose two columns both
  evaluate, or among the mentions.
\<close>

theorem edges_point_to_tweeting_user:
  assumes "process_potential_edges A user_ids tweet_ser g = Inr g'"
  shows "(\<forall>u v k. v \<noteq> A \<longrightarrow> get_edge_data g' u v k = get_edge_data g u v k) \<and>
    (\<forall>B. B \<noteq> A \<and> B \<in> set user_ids \<and> A \<in> set user_ids \<and>
          ((\<exists>replied. replied_to_author_ids tweet_ser = Some replied \<and> Some B \<in> set replied) \<or>
           (\<exists>retweeted quoted. retweeted_author_ids tweet_ser = Some retweeted \<and>
               quoted_author_ids tweet_ser = Some quoted \<and> Some B \<in> set (retweeted @ quoted)) \<or>
           (\<exists>mention_ids. mentioned_user_ids tweet_ser = Some mention_ids \<and>
               Some B \<in> set mention_ids)) \<longrightarrow>
       weight_of g (B, A, generate_edge_key B A) + 1 \<le> weight_of g' (B, A, generate_edge_key B A))"
proof -
  have unchanged: "get_edge_data g' u v k = get_edge_data g u v k" if "v \<noteq> A" for u v k
    using assms that by (rule process_potential_edges_other_dest)
  have added: "weight_of g (B, A, generate_edge_key B A) + 1 \<le> weight_of g' (B, A, generate_edge_key B A)"
    if guard: "B \<noteq> A" "B \<in> set user_ids" "A \<in> set user_ids"
      and ref: "(\<exists>replied. replied_to_author_ids tweet_ser = Some replied \<and> Some B \<in> set replied) \<or>
           (\<exists>retweeted quoted. retweeted_author_ids tweet_ser = Some retweeted \<and>
               quoted_author_ids tweet_ser = Some quoted \<and> Some B \<in> set (retweeted @ quoted)) \<or>
           (\<exists>mention_ids. mentioned_user_ids tweet_ser = Some mention_ids \<and>
               Some B \<in> set mention_ids)" for B
  proof -
    from ref have "Some B \<in> set (counted_ids tweet_ser)"
      by (auto simp: counted_ids_def rrq_ids_def)
    then have "count_list (counted_ids tweet_ser) (Some B) \<noteq> 0"
      by (simp add: count_list_0_iff)
    then have "1 \<le> real (count_list (counted_ids tweet_ser) (Some B))"
      by simp
    then show ?thesis
      using process_potential_edges_weight [OF assms guard] by simp
  qed
  from unchanged added show ?thesis by blast
qed

theorem edges_point_to_tweeting_user_witness:
  "process_potential_edges 1 [0, 1] example_tweet empty_graph = Inr example_after_tweet \<and>
   get_edge_data example_after_tweet 1 0 (generate_edge_key 1 0) =
     get_edge_data empty_graph 1 0 (generate_edge_key 1 0) \<and>
   retweeted_author_ids example_tweet = Some [Some 0] \<and>
   quoted_author_ids example_tweet = Some [] \<and>
   weight_of empty_graph (0, 1, generate_edge_key 0 1) + 1 \<le>
     weight_of example_after_tweet (0, 1, generate_edge_key 0 1)"
proof -
  note t = edges_point_to_tweeting_user [OF process_example_tweet]
  note t1 = t [THEN conjunct1, rule_format] and t2 = t [THEN conjunct2, rule_format]
  have rt: "retweeted_author_ids example_tweet = Some [Some 0]"
    and q: "quoted_author_ids example_tweet = Some []"
    by (simp_all add: example_tweet_def mk_tweet_def)
  have c1: "get_edge_data example_after_tweet 1 0 (generate_edge_key 1 0) =
     get_edge_data empty_graph 1 0 (generate_edge_key 1 0)"
    by (rule t1) simp
  have "(0::int) \<noteq> 1 \<and> (0::int) \<in> set [0, 1] \<and> (1::int) \<in> set [0, 1] \<and>
      ((\<exists>replied. replied_to_author_ids example_tweet = Some replied \<and> Some 0 \<in> set replied) \<or>
       (\<exists>retweeted quoted. retweeted_author_ids example_tweet = Some retweeted \<and>
           quoted_author_ids example_tweet = Some quoted \<and> Some 0 \<in> set (retweeted @ quoted)) \<or>
       (\<exists>mention_ids. mentioned_user_ids example_tweet = Some mention_ids \<and>
           Some 0 \<in> set mention_ids))"
    by (simp add: rt q)
  then have c2: "weight_of empty_graph (0, 1, generate_edge_key 0 1) + 1 \<le>
     weight_of example_after_tweet (0, 1, generate_edge_key 0 1)"
    by (rule t2)
  show ?thesis
    by (intro conjI) (rule process_example_tweet c1 rt q c2)+
qed

text \<open>
  C6 as the claim states it fails for a user outside the network: user 1 replies to
  user 7, and the graph stays empty, so the edge \<open>7 -> 1\<close> gains nothing.
\<close>

theorem reply_outside_network_counterexample:
  "replied_to_author_ids outside_tweet = Some [Some 7] \<and>
   process_potential_edges 1 [0, 1] outside_tweet empty_graph = Inr empty_graph"
  by (simp add: builder_defs outside_tweet_def mk_tweet_def)



section \<open>Normalisation\<close>

lemma set_edges_view:
  assumes "\<forall>e\<in>set (map fst (edges g)). fst e \<in> set (nodes g)"
  shows "set (edges_view g) = set (map fst (edges g))"
proof (rule set_eqI)
  fix x :: edge_id
  have "x \<in> set (edges_view g) \<longleftrightarrow> fst x \<in> set (nodes g) \<and> x \<in> set (map fst (edges g))"
    by (force simp: edges_view_def Let_def case_prod_unfold)
  with assms show "x \<in> set (edges_view g) \<longleftrightarrow> x \<in> set (map fst (edges g))"
    by blast
qed

lemma distinct_concat_map:
  "distinct xs \<Longrightarrow> (\<And>x. x \<in> set xs \<Longrightarrow> distinct (f x)) \<Longrightarrow>
   (\<And>x y. x \<in> set xs \<Longrightarrow> y \<in> set xs \<Longrightarrow> x \<noteq> y \<Longrightarrow> set (f x) \<inter> set (f y) = {}) \<Longrightarrow>
   distinct (concat (map f xs))"
proof (induction xs)
  case Nil
  then show ?case by simp
next
  case (Cons x xs)
  have "distinct (concat (map f xs))"
    using Cons by simp
  moreover have "distinct (f x)" using Cons.prems(2) by simp
  moreover have "set (f x) \<inter> set (concat (map f xs)) = {}"
  proof -
    have "set (f x) \<inter> set (f y) = {}" if "y \<in> set xs" for y
      using Cons.prems(1) Cons.prems(3) [of x y] that by auto
    then show ?thesis by auto
  qed
  ultimately show ?case by simp
qed

lemma distinct_edges_view:
  assumes "distinct (map fst (edges g))" and "distinct (nodes g)"
  shows "distinct (edges_view g)"
  unfolding edges_view_def
proof (rule distinct_concat_map [OF assms(2)])
  fix u
  let ?es = "filter (\<lambda>(a, b, k). a = u) (map fst (edges g))"
  have "distinct (concat (map (\<lambda>v. filter (\<lambda>(a, b, k). b = v) ?es) (remdups (map (\<lambda>(a, b, k). b) ?es))))"
  proof (rule distinct_concat_map)
    show "distinct (remdups (map (\<lambda>(a, b, k). b) ?es))" by simp
  next
    fix v
    show "distinct (filter (\<lambda>(a, b, k). b = v) ?es)"
      using assms(1) by simp
  next
    fix v w :: int
    assume "v \<noteq> w"
    then show "set (filter (\<lambda>(a, b, k). b = v) ?es) \<inter> set (filter (\<lambda>(a, b, k). b = w) ?es) = {}"
      by auto
  qed
  then show "distinct (let es = ?es in
      concat (map (\<lambda>v. filter (\<lambda>(a, b, k). b = v) es) (remdups (map (\<lambda>(a, b, k). b) es))))"
    by (simp add: Let_def)
next
  fix u w :: int
  assume "u \<noteq> w"
  then show "set (let es = filter (\<lambda>(a, b, k). a = u) (map fst (edges g)) in
      concat (map (\<lambda>v. filter (\<lambda>(a, b, k). b = v) es) (remdups (map (\<lambda>(a, b, k). b) es)))) \<inter>
    set (let es = filter (\<lambda>(a, b, k). a = w) (map fst (edges g)) in
      concat (map (\<lambda>v. filter (\<lambda>(a, b, k). b = v) es) (remdups (map (\<lambda>(a, b, k). b) es)))) = {}"
    by (auto simp: Let_def)
qed

lemma normalize_edge_kept:
  assumes "normalize_edge d m (g, etr, ntr) (u, v, generate_edge_key u v) = Inr (g', etr', ntr')"
    and "enough_tweets d m u"
  shows "\<exists>n w q. d u = Some n \<and> map_of (edges g) (u, v, generate_edge_key u v) = Some w \<and>
      py_truediv w n = Inr q \<and>
      map_of (edges g') = (map_of (edges g))((u, v, generate_edge_key u v) \<mapsto> q) \<and>
      etr' = etr \<and> ntr' = ntr"
  using assms
  by (auto simp: normalize_edge_def parse_generate_edge_key enough_tweets_def get_edge_data_def
      split: option.splits if_splits sum.splits dest: set_weight_Inr(3))

lemma normalize_edge_dropped:
  assumes "normalize_edge d m (g, etr, ntr) (u, v, generate_edge_key u v) = Inr (g', etr', ntr')"
    and "\<not> enough_tweets d m u"
  shows "g' = g \<and> etr' = etr @ [(u, v, generate_edge_key u v)] \<and> set ntr' = insert u (set ntr)"
  using assms
  by (auto simp: normalize_edge_def parse_generate_edge_key enough_tweets_def
      split: option.splits if_splits)

lemma normalize_loop_result:
  "normalize_loop d m st es = Inr st' \<Longrightarrow> distinct es \<Longrightarrow>
   \<forall>e\<in>set es. snd (snd e) = generate_edge_key (fst e) (fst (snd e)) \<Longrightarrow>
   set (fst (snd st')) = set (fst (snd st)) \<union> {e \<in> set es. \<not> enough_tweets d m (fst e)} \<and>
   set (snd (snd st')) = set (snd (snd st)) \<union> fst ` {e \<in> set es. \<not> enough_tweets d m (fst e)} \<and>
   (\<forall>e. map_of (edges (fst st')) e =
      (if e \<in> set es \<and> enough_tweets d m (fst e)
       then map_option (\<lambda>w. projr (py_truediv w (the (d (fst e))))) (map_of (edges (fst st)) e)
       else map_of (edges (fst st)) e)) \<and>
   (\<forall>e\<in>set es. enough_tweets d m (fst e) \<longrightarrow>
      (\<exists>w q. map_of (edges (fst st)) e = Some w \<and> py_truediv w (the (d (fst e))) = Inr q))"
proof (induction es arbitrary: st)
  case Nil
  then show ?case by simp
next
  case (Cons x xs)
  obtain g etr ntr where st: "st = (g, etr, ntr)" by (cases st)
  obtain u v where x: "x = (u, v, generate_edge_key u v)"
    using Cons.prems(3) by (cases x) auto
  from Cons.prems(1) obtain st1 where s1: "normalize_edge d m st x = Inr st1"
    and rest: "normalize_loop d m st1 xs = Inr st'"
    by (auto split: sum.splits)
  obtain g1 etr1 ntr1 where st1: "st1 = (g1, etr1, ntr1)" by (cases st1)
  from Cons.prems(2,3) have dx: "distinct xs" "x \<notin> set xs"
    and cx: "\<forall>e\<in>set xs. snd (snd e) = generate_edge_key (fst e) (fst (snd e))"
    by simp_all
  note IH = Cons.IH [OF rest dx(1) cx]
  have fx: "fst x = u" by (simp add: x)
  have sets: "set (fst (snd st')) = set etr1 \<union> {e \<in> set xs. \<not> enough_tweets d m (fst e)}"
    "set (snd (snd st')) = set ntr1 \<union> fst ` {e \<in> set xs. \<not> enough_tweets d m (fst e)}"
    using IH [THEN conjunct1] IH [THEN conjunct2, THEN conjunct1] unfolding st1 by simp_all
  have maps: "map_of (edges (fst st')) e =
      (if e \<in> set xs \<and> enough_tweets d m (fst e)
       then map_option (\<lambda>w. projr (py_truediv w (the (d (fst e))))) (map_of (edges g1) e)
       else map_of (edges g1) e)" for e
    using IH [THEN conjunct2, THEN conjunct2, THEN conjunct1, THEN spec, of e] unfolding st1 by simp
  have divs: "\<exists>w q. map_of (edges g1) e = Some w \<and> py_truediv w (the (d (fst e))) = Inr q"
    if "e \<in> set xs" and "enough_tweets d m (fst e)" for e
    using IH [THEN conjunct2, THEN conjunct2, THEN conjunct2, THEN bspec, OF that(1)] that(2)
    unfolding st1 by simp
  show ?case
  proof (cases "enough_tweets d m u")
    case True
    from normalize_edge_kept [OF s1 [unfolded st st1 x] True]
    obtain n w q where n: "d u = Some n"
      and w: "map_of (edges g) x = Some w"
      and q: "py_truediv w n = Inr q"
      and g1: "map_of (edges g1) = (map_of (edges g))(x \<mapsto> q)"
      and e1: "etr1 = etr" "ntr1 = ntr"
      unfolding x by blast
    have mo: "map_of (edges g1) e = map_of (edges g) e" if "e \<noteq> x" for e
      using that by (simp add: g1)
    have mx: "map_of (edges g1) x = Some q"
      by (simp add: g1)
    have keep: "{e \<in> set (x # xs). \<not> enough_tweets d m (fst e)} =
        {e \<in> set xs. \<not> enough_tweets d m (fst e)}"
      using True fx by auto
    have c1: "set (fst (snd st')) =
        set (fst (snd st)) \<union> {e \<in> set (x # xs). \<not> enough_tweets d m (fst e)}"
      unfolding keep using sets(1) by (simp add: st e1)
    have c2: "set (snd (snd st')) =
        set (snd (snd st)) \<union> fst ` {e \<in> set (x # xs). \<not> enough_tweets d m (fst e)}"
      unfolding keep using sets(2) by (simp add: st e1)
    have c3: "map_of (edges (fst st')) e =
        (if e \<in> set (x # xs) \<and> enough_tweets d m (fst e)
         then map_option (\<lambda>w. projr (py_truediv w (the (d (fst e))))) (map_of (edges (fst st)) e)
         else map_of (edges (fst st)) e)" for e
    proof (cases "e = x")
      case ex: True
      with dx(2) maps [of x] mx have "map_of (edges (fst st')) e = Some q" by simp
      with ex True n w q show ?thesis
        by (simp add: st fx)
    next
      case False
      with maps [of e] mo [of e] show ?thesis
        by (simp add: st)
    qed
    have c4: "\<exists>w q. map_of (edges (fst st)) e = Some w \<and> py_truediv w (the (d (fst e))) = Inr q"
      if "e \<in> set (x # xs)" and "enough_tweets d m (fst e)" for e
    proof (cases "e = x")
      case True
      with n w q show ?thesis by (simp add: st fx)
    next
      case False
      with that have "e \<in> set xs" by simp
      from divs [OF this that(2)] mo [OF False] show ?thesis
        by (simp add: st)
    qed
    show ?thesis
      by (intro conjI allI ballI impI) (rule c1, rule c2, rule c3, rule c4)
  next
    case False
    from normalize_edge_dropped [OF s1 [unfolded st st1 x] False]
    have g1: "g1 = g" and e1: "etr1 = etr @ [x]" and n1: "set ntr1 = insert u (set ntr)"
      unfolding x by simp_all
    have drop: "{e \<in> set (x # xs). \<not> enough_tweets d m (fst e)} =
        insert x {e \<in> set xs. \<not> enough_tweets d m (fst e)}"
      using False fx by auto
    have c1: "set (fst (snd st')) =
        set (fst (snd st)) \<union> {e \<in> set (x # xs). \<not> enough_tweets d m (fst e)}"
      unfolding drop using sets(1) by (simp add: st e1)
    have c2: "set (snd (snd st')) =
        set (snd (snd st)) \<union> fst ` {e \<in> set (x # xs). \<not> enough_tweets d m (fst e)}"
      unfolding drop using sets(2) by (simp add: st n1 fx)
    have c3: "map_of (edges (fst st')) e =
        (if e \<in> set (x # xs) \<and> enough_tweets d m (fst e)
         then map_option (\<lambda>w. projr (py_truediv w (the (d (fst e))))) (map_of (edges (fst st)) e)
         else map_of (edges (fst st)) e)" for e
    proof (cases "e = x")
      case True
      with dx(2) maps [of x] False show ?thesis
        by (simp add: st g1 fx)
    next
      case False
      with maps [of e] show ?thesis
        by (simp add: st g1)
    qed
    have c4: "\<exists>w q. map_of (edges (fst st)) e = Some w \<and> py_truediv w (the (d (fst e))) = Inr q"
      if "e \<in> set (x # xs)" and "enough_tweets d m (fst e)" for e
    proof -
      from that False have "e \<noteq> x" using fx by auto
      with that have "e \<in> set xs" by simp
      from divs [OF this that(2)] show ?thesis
        by (simp add: st g1)
    qed
    show ?thesis
      by (intro conjI allI ballI impI) (rule c1, rule c2, rule c3, rule c4)
  qed
qed

lemma process_files_counts:
  "process_files uids st files = Inr st' \<Longrightarrow>
   snd st' = foldl (\<lambda>d (c, tws). d(c \<mapsto> length tws)) (snd st) files"
proof (induction files arbitrary: st)
  case Nil
  then show ?case by simp
next
  case (Cons f files)
  obtain c tws where f: "f = (c, tws)" by (cases f)
  from Cons.prems obtain g1 where
    rest: "process_files uids (g1, (snd st)(c \<mapsto> length tws)) files = Inr st'"
    by (auto simp: f split: sum.splits)
  from Cons.IH [OF rest] show ?case by (simp add: f)
qed

lemma build_edges_counts:
  assumes "build_edges files = Inr (g, d)"
  shows "d = tweet_counts files"
  using process_files_counts [of "map fst (sort_key fst files)" "(empty_graph, Map.empty)"
      "sort_key fst files" "(g, d)"] assms
  by (simp add: build_edges_def Let_def tweet_counts_def)

lemma build_edges_source:
  assumes "build_edges files = Inr (g, d)" and "(u, v) \<in> set (counted_interactions files)"
  shows "(u, v, generate_edge_key u v) \<in> fst ` set (edges g)"
proof -
  have "count_list (counted_interactions files) (u, v) \<noteq> 0"
    using assms(2) by (simp add: count_list_0_iff)
  then have "weight_of g (u, v, generate_edge_key u v) \<noteq> 0"
    using build_edges_weight [OF assms(1), of u v "generate_edge_key u v"] by simp
  then obtain w where "map_of (edges g) (u, v, generate_edge_key u v) = Some w"
    by (auto simp: weight_of_def split: option.splits)
  then show ?thesis
    by (auto dest!: map_of_SomeD intro: rev_image_eqI)
qed

lemma normalize_result:
  assumes n: "normalize_graph_edge_weights g d m = Inr g'" and inv: "built_inv uids g"
  shows "((u, v, k), w') \<in> set (edges g') \<Longrightarrow>
      \<exists>n w. d u = Some n \<and> m \<le> int n \<and> 0 < n \<and> map_of (edges g) (u, v, k) = Some w \<and>
        py_truediv w n = Inr w'"
    and "(u, v, k) \<in> fst ` set (edges g) \<Longrightarrow> \<not> enough_tweets d m u \<Longrightarrow>
      u \<notin> set (nodes g') \<and> (\<forall>a b k w. ((a, b, k), w) \<in> set (edges g') \<longrightarrow> a \<noteq> u \<and> b \<noteq> u)"
proof -
  from n obtain g1 etr ntr g2 where
    l: "normalize_loop d m (g, [], []) (edges_view g) = Inr (g1, etr, ntr)" and
    re: "remove_edges g1 etr = Inr g2" and rn: "remove_nodes g2 ntr = Inr g'"
    by (auto simp: normalize_graph_edge_weights_def split: sum.splits prod.splits)
  from inv have dist: "distinct (map fst (edges g))" and dn: "distinct (nodes g)"
    and ok: "\<forall>e\<in>set (map fst (edges g)). edge_ok uids e \<and> fst e \<in> set (nodes g)"
    by (auto simp: built_inv_def list_all_iff)
  have view: "set (edges_view g) = set (map fst (edges g))"
    using ok by (intro set_edges_view) blast
  have dview: "distinct (edges_view g)"
    using dist dn by (rule distinct_edges_view)
  have canon: "\<forall>e\<in>set (edges_view g). snd (snd e) = generate_edge_key (fst e) (fst (snd e))"
    using ok unfolding view by (auto simp: edge_ok_def)
  note res = normalize_loop_result [OF l dview canon]
  from res have etr: "set etr = {e \<in> set (edges_view g). \<not> enough_tweets d m (fst e)}"
    and ntr: "set ntr = fst ` {e \<in> set (edges_view g). \<not> enough_tweets d m (fst e)}"
    and mp: "\<And>e. map_of (edges g1) e =
      (if e \<in> set (edges_view g) \<and> enough_tweets d m (fst e)
       then map_option (\<lambda>w. projr (py_truediv w (the (d (fst e))))) (map_of (edges g) e)
       else map_of (edges g) e)"
    and nz: "\<And>e. e \<in> set (edges_view g) \<Longrightarrow> enough_tweets d m (fst e) \<Longrightarrow>
      \<exists>w q. map_of (edges g) e = Some w \<and> py_truediv w (the (d (fst e))) = Inr q"
    by (simp_all del: split_paired_All split_paired_Ex)
  have keys1: "map fst (edges g1) = map fst (edges g)"
    using normalize_loop_shape [OF l] by simp
  have e2: "edges g2 = filter (\<lambda>p. fst p \<notin> set etr) (edges g1)"
    using remove_edges_Inr [OF re] by simp
  have e': "edges g' = filter (\<lambda>((a, b, k), w). a \<notin> set ntr \<and> b \<notin> set ntr) (edges g2)"
    and n': "nodes g' = filter (\<lambda>x. x \<notin> set ntr) (nodes g2)"
    using remove_nodes_Inr [OF rn] by simp_all
  {
    assume e: "((u, v, k), w') \<in> set (edges g')"
    then have in1: "((u, v, k), w') \<in> set (edges g1)" and notr: "(u, v, k) \<notin> set etr"
      by (auto simp: e' e2)
    from in1 have m1: "map_of (edges g1) (u, v, k) = Some w'"
      using dist keys1 by (simp add: map_of_eq_Some_iff)
    from in1 have inview: "(u, v, k) \<in> set (edges_view g)"
      unfolding view keys1 [symmetric] by force
    with notr have en: "enough_tweets d m u"
      by (auto simp: etr)
    then obtain n where dn: "d u = Some n" "m \<le> int n"
      by (auto simp: enough_tweets_def split: option.splits)
    from nz [OF inview] en dn obtain w q where w: "map_of (edges g) (u, v, k) = Some w"
      and q: "py_truediv w n = Inr q"
      by auto
    from m1 mp [of "(u, v, k)"] inview en dn w q have "w' = q"
      by simp
    moreover from q have "0 < n" by (rule py_truediv_Inr_pos)
    ultimately show "\<exists>n w. d u = Some n \<and> m \<le> int n \<and> 0 < n \<and> map_of (edges g) (u, v, k) = Some w \<and>
        py_truediv w n = Inr w'"
      using dn w q by auto
  }
  {
    assume k: "(u, v, k) \<in> fst ` set (edges g)" and ne: "\<not> enough_tweets d m u"
    then have "(u, v, k) \<in> set (edges_view g)"
      unfolding view by simp
    with ne have "u \<in> set ntr"
      unfolding ntr by force
    then show "u \<notin> set (nodes g') \<and> (\<forall>a b k w. ((a, b, k), w) \<in> set (edges g') \<longrightarrow> a \<noteq> u \<and> b \<noteq> u)"
      by (auto simp: e' n')
  }
qed

lemma make_graph_pruned_example: "make_graph pruned_files 2 = Inr pruned_graph"
  by (simp add: builder_defs pruned_files_def pruned_graph_def mk_tweet_def)

lemma tweet_counts_pruned_example:
  "tweet_counts pruned_files 0 = Some 1" "tweet_counts pruned_files 1 = Some 2"
  by (simp_all add: tweet_counts_def pruned_files_def)

lemma counted_interactions_pruned_example: "counted_interactions pruned_files = [(0, 1), (1, 2)]"
  by (simp add: counted_interactions_def interactions_def tweets_pairs_def ids_pairs_def
      counted_ids_def rrq_ids_def pruned_files_def mk_tweet_def)

text \<open>
  A user under the threshold who is the source of no edge stays in the graph, as the
  destination of the edges that lead to it.
\<close>

lemma quiet_destination_stays:
  "make_graph quiet_files 2 = Inr \<lparr>nodes = [1, 0], edges = [((1, 0, ''1->0''), 1 / 2)]\<rparr> \<and>
   \<not> enough_tweets (tweet_counts quiet_files) 2 0"
  by (simp add: builder_defs quiet_files_def mk_tweet_def tweet_counts_def enough_tweets_def)

section \<open>The tweet count of a user\<close>

lemma map_insort_key: "map f (insort_key f x xs) = insort (f x) (map f xs)"
  by (induction xs) auto

lemma map_sort_key: "map f (sort_key f xs) = sort (map f xs)"
  by (induction xs) (simp_all add: map_insort_key)

lemma distinct_map_sort_key: "distinct (map f (sort_key f xs)) = distinct (map f xs)"
  by (simp add: map_sort_key)

lemma foldl_counts_other:
  "u \<notin> fst ` set xs \<Longrightarrow> foldl (\<lambda>d (c, tws). d(c \<mapsto> length tws)) d0 xs u = d0 u"
  by (induction xs arbitrary: d0) auto

lemma foldl_counts_distinct:
  "distinct (map fst xs) \<Longrightarrow> (u, tws) \<in> set xs \<Longrightarrow>
   foldl (\<lambda>d (c, tws). d(c \<mapsto> length tws)) d0 xs u = Some (length tws)"
proof (induction xs arbitrary: d0)
  case Nil
  then show ?case by simp
next
  case (Cons x xs)
  show ?case
  proof (cases "x = (u, tws)")
    case True
    with Cons.prems(1) have "u \<notin> fst ` set xs" by auto
    from foldl_counts_other [OF this, of "d0(u \<mapsto> length tws)"] show ?thesis
      unfolding True by (simp only: foldl.simps prod.case fun_upd_same)
  next
    case False
    with Cons show ?thesis by (cases x) auto
  qed
qed

lemma total_tweets_distinct:
  "distinct (map fst xs) \<Longrightarrow> (u, tws) \<in> set xs \<Longrightarrow> total_tweets xs u = length tws"
proof (induction xs)
  case Nil
  then show ?case by simp
next
  case (Cons x xs)
  show ?case
  proof (cases "x = (u, tws)")
    case True
    with Cons.prems(1) have "filter (\<lambda>f. fst f = u) xs = []"
      by (auto simp: filter_empty_conv)
    with True show ?thesis by (simp add: total_tweets_def)
  next
    case False
    with Cons.prems have "fst x \<noteq> u" and "(u, tws) \<in> set xs"
      by (auto simp: image_iff)
    with Cons show ?thesis by (simp add: total_tweets_def)
  qed
qed

lemma tweet_counts_distinct:
  assumes "distinct (map fst files)" and "u \<in> fst ` set files"
  shows "tweet_counts files u = Some (total_tweets files u)"
proof -
  from assms(2) obtain tws where m: "(u, tws) \<in> set files" by auto
  have "distinct (map fst (sort_key fst files))"
    using assms(1) by (simp add: distinct_map_sort_key)
  moreover have "(u, tws) \<in> set (sort_key fst files)"
    using m by simp
  ultimately have "tweet_counts files u = Some (length tws)"
    unfolding tweet_counts_def by (rule foldl_counts_distinct)
  with total_tweets_distinct [OF assms(1) m] show ?thesis by simp
qed

lemma truediv_third: "py_truediv 1 3 = Inr (6004799503160661 / 18014398509481984)"
  by (simp add: truediv_defs)

lemma make_graph_dup_example: "make_graph dup_files 1 = Inr dup_graph"
  by (simp add: builder_defs dup_files_def dup_graph_def mk_tweet_def)

lemma make_graph_dup_pruned: "make_graph dup_files 2 = Inr \<lparr>nodes = [0], edges = []\<rparr>"
  by (simp add: builder_defs dup_files_def mk_tweet_def)

lemma dup_facts:
  "count_list (counted_interactions dup_files) (1, 0) = 1"
  "total_tweets dup_files 1 = 3"
  "tweet_counts dup_files 1 = Some 1"
  by (simp_all add: counted_interactions_def interactions_def tweets_pairs_def ids_pairs_def
      counted_ids_def rrq_ids_def dup_files_def mk_tweet_def total_tweets_def tweet_counts_def)

section \<open>Normalised weights and pruned sources\<close>

text \<open>
  C7, as the code has it. In a graph that \<open>make_graph\<close> returns, the source of every edge
  has a recorded tweet count of at least \<open>min_number_tweets\<close>, and the weight of the edge
  is Python's quotient of the number of counted interactions of its pair by that count.
  A user whose recorded count is under the threshold and who was the source of an
  interaction is no node of the graph, and no edge of the graph leaves or enters it.
  The recorded count is the user's total number of tweets when every user has one file.
\<close>

theorem make_graph_normalized_and_pruned:
  assumes "make_graph files min_number_tweets = Inr g"
  shows "(\<forall>u v k w. ((u, v, k), w) \<in> set (edges g) \<longrightarrow>
       (\<exists>n. tweet_counts files u = Some n \<and> min_number_tweets \<le> int n \<and> 0 < n \<and>
          py_truediv (real (count_list (counted_interactions files) (u, v))) n = Inr w)) \<and>
    (\<forall>u v. (u, v) \<in> set (counted_interactions files) \<and>
        \<not> enough_tweets (tweet_counts files) min_number_tweets u \<longrightarrow>
       u \<notin> set (nodes g) \<and> (\<forall>a b k w. ((a, b, k), w) \<in> set (edges g) \<longrightarrow> a \<noteq> u \<and> b \<noteq> u)) \<and>
    (distinct (map fst files) \<longrightarrow>
       (\<forall>u\<in>fst ` set files. tweet_counts files u = Some (total_tweets files u)))"
proof -
  from assms obtain gb d where b: "build_edges files = Inr (gb, d)"
    and n: "normalize_graph_edge_weights gb d min_number_tweets = Inr g"
    by (auto simp: make_graph_def split: sum.splits prod.splits)
  have d: "d = tweet_counts files"
    using b by (rule build_edges_counts)
  note inv = build_edges_built_inv [OF b]
  have weights: "\<exists>n. tweet_counts files u = Some n \<and> min_number_tweets \<le> int n \<and> 0 < n \<and>
          py_truediv (real (count_list (counted_interactions files) (u, v))) n = Inr w"
    if e: "((u, v, k), w) \<in> set (edges g)" for u v k w
  proof -
    from normalize_result(1) [OF n inv e]
    obtain n0 w0 where n0: "d u = Some n0" "min_number_tweets \<le> int n0" "0 < n0"
      and w0: "map_of (edges gb) (u, v, k) = Some w0" "py_truediv w0 n0 = Inr w"
      by blast
    from w0(1) have "(u, v, k) \<in> set (map fst (edges gb))"
      by (auto dest!: map_of_SomeD intro: rev_image_eqI)
    with inv have "k = generate_edge_key u v"
      unfolding built_inv_def list_all_iff by (auto simp: edge_ok_def)
    moreover have "weight_of gb (u, v, k) = w0"
      using w0(1) by (simp add: weight_of_def)
    ultimately have "w0 = real (count_list (counted_interactions files) (u, v))"
      using build_edges_weight [OF b, of u v k] by simp
    with n0 w0(2) show ?thesis
      unfolding d by blast
  qed
  have pruned: "u \<notin> set (nodes g) \<and> (\<forall>a b k w. ((a, b, k), w) \<in> set (edges g) \<longrightarrow> a \<noteq> u \<and> b \<noteq> u)"
    if "(u, v) \<in> set (counted_interactions files)"
      and "\<not> enough_tweets (tweet_counts files) min_number_tweets u" for u v
    using normalize_result(2) [OF n inv build_edges_source [OF b that(1)]] that(2)
    unfolding d by blast
  have counts: "tweet_counts files u = Some (total_tweets files u)"
    if "distinct (map fst files)" and "u \<in> fst ` set files" for u
    using that by (rule tweet_counts_distinct)
  from weights pruned counts show ?thesis by blast
qed

theorem make_graph_normalized_and_pruned_witness:
  "make_graph pruned_files 2 = Inr pruned_graph \<and>
   (\<exists>n. tweet_counts pruned_files 1 = Some n \<and> 2 \<le> int n \<and> 0 < n \<and>
      py_truediv (real (count_list (counted_interactions pruned_files) (1, 2))) n = Inr (1 / 2)) \<and>
   (0, 1) \<in> set (counted_interactions pruned_files) \<and>
   \<not> enough_tweets (tweet_counts pruned_files) 2 0 \<and>
   0 \<notin> set (nodes pruned_graph) \<and>
   distinct (map fst pruned_files) \<and>
   tweet_counts pruned_files 1 = Some (total_tweets pruned_files 1)"
proof -
  note t = make_graph_normalized_and_pruned [OF make_graph_pruned_example]
  note t1 = t [THEN conjunct1, rule_format]
    and t2 = t [THEN conjunct2, THEN conjunct1, rule_format]
    and t3 = t [THEN conjunct2, THEN conjunct2, rule_format]
  have e: "((1, 2, ''1->2''), 1 / 2) \<in> set (edges pruned_graph)"
    by (simp add: pruned_graph_def)
  have i: "(0, 1) \<in> set (counted_interactions pruned_files)"
    by (simp add: counted_interactions_pruned_example)
  have u: "\<not> enough_tweets (tweet_counts pruned_files) 2 0"
    by (simp add: enough_tweets_def tweet_counts_pruned_example)
  have dist: "distinct (map fst pruned_files)"
    by (simp add: pruned_files_def)
  have m: "(1::int) \<in> fst ` set pruned_files"
    by (simp add: pruned_files_def)
  have c1: "\<exists>n. tweet_counts pruned_files 1 = Some n \<and> 2 \<le> int n \<and> 0 < n \<and>
      py_truediv (real (count_list (counted_interactions pruned_files) (1, 2))) n = Inr (1 / 2)"
    using e by (rule t1)
  have c2: "0 \<notin> set (nodes pruned_graph)"
    using t2 [OF conjI [OF i u]] by (rule conjunct1)
  have c3: "tweet_counts pruned_files 1 = Some (total_tweets pruned_files 1)"
    using dist m by (rule t3)
  show ?thesis
    by (intro conjI) (rule make_graph_pruned_example c1 i u c2 dist c3)+
qed

text \<open>
  C7 as the claim states it fails when a user id has two files: user 1 has three tweets
  in two files and is the source of one interaction, yet the edge \<open>1 -> 0\<close> gets the
  weight 1 (one interaction by the one row of the file read last), not the quotient of
  1 by 3; and a threshold of 2 removes user 1.
\<close>

theorem duplicate_files_counterexample:
  "make_graph dup_files 1 = Inr dup_graph \<and>
   ((1, 0, ''1->0''), 1) \<in> set (edges dup_graph) \<and>
   count_list (counted_interactions dup_files) (1, 0) = 1 \<and>
   total_tweets dup_files 1 = 3 \<and>
   py_truediv 1 3 \<noteq> Inr 1 \<and>
   make_graph dup_files 2 = Inr \<lparr>nodes = [0], edges = []\<rparr>"
  using make_graph_dup_example make_graph_dup_pruned dup_facts(1,2)
  by (simp add: dup_graph_def truediv_third)

section \<open>Validation of the engine's input\<close>

lemma validate_in_None:
  "validate_in N i0 nss wss = None \<Longrightarrow>
   length nss = length wss \<and>
   (\<forall>p<length nss. length (nss ! p) = length (wss ! p) \<and> list_all (id_ok N) (nss ! p) \<and>
      list_all weight_ok (wss ! p))"
proof (induction N i0 nss wss rule: validate_in.induct)
  case (4 N i ns nss ws wss)
  from "4.prems" have h: "length ns = length ws" "list_all (id_ok N) ns" "list_all weight_ok ws"
    and r: "validate_in N (Suc i) nss wss = None"
    by (auto split: if_splits)
  from "4.IH" [OF _ _ _ r] h have IH: "length nss = length wss \<and>
   (\<forall>p<length nss. length (nss ! p) = length (wss ! p) \<and> list_all (id_ok N) (nss ! p) \<and>
      list_all weight_ok (wss ! p))"
    by simp
  show ?case
  proof (intro conjI allI impI)
    show "length (ns # nss) = length (ws # wss)" using IH by simp
  next
    fix p assume "p < length (ns # nss)"
    then show "length ((ns # nss) ! p) = length ((ws # wss) ! p)"
      "list_all (id_ok N) ((ns # nss) ! p)" "list_all weight_ok ((ws # wss) ! p)"
      using IH h by (cases p; simp)+
  qed
qed simp_all

lemma validate_out_None:
  "validate_out N i0 nss = None \<Longrightarrow> \<forall>p<length nss. list_all (id_ok N) (nss ! p)"
proof (induction N i0 nss rule: validate_out.induct)
  case (2 N i ns nss)
  from "2.prems" have h: "list_all (id_ok N) ns" and r: "validate_out N (Suc i) nss = None"
    by (auto split: if_splits)
  from "2.IH" [OF _ r] h have IH: "\<forall>p<length nss. list_all (id_ok N) (nss ! p)" by simp
  show ?case
  proof (intro allI impI)
    fix p assume "p < length (ns # nss)"
    then show "list_all (id_ok N) ((ns # nss) ! p)"
      using IH h by (cases p) simp_all
  qed
qed simp

lemma validate_in_Some:
  "validate_in N i0 nss wss = Some (InvalidGraphInput i f) \<Longrightarrow>
   i0 \<le> i \<and>
   (f = InNeighbors \<and> i - i0 < length nss \<and> \<not> list_all (id_ok N) (nss ! (i - i0)) \<or>
    f = InWeights \<and>
      ((i - i0 < length nss \<and> length wss \<le> i - i0) \<or>
       (i - i0 < length wss \<and> length nss \<le> i - i0) \<or>
       (i - i0 < length nss \<and> i - i0 < length wss \<and>
        (length (nss ! (i - i0)) \<noteq> length (wss ! (i - i0)) \<or>
         \<not> list_all weight_ok (wss ! (i - i0))))))"
proof (induction N i0 nss wss rule: validate_in.induct)
  case (4 N i0 ns nss ws wss)
  show ?case
  proof (cases "length ns \<noteq> length ws \<or> \<not> list_all (id_ok N) ns \<or> \<not> list_all weight_ok ws")
    case True
    with "4.prems" show ?thesis by (auto split: if_splits)
  next
    case False
    with "4.prems" have r: "validate_in N (Suc i0) nss wss = Some (InvalidGraphInput i f)"
      by simp
    from "4.IH" [OF _ _ _ r] False
    have IH: "Suc i0 \<le> i \<and>
   (f = InNeighbors \<and> i - Suc i0 < length nss \<and> \<not> list_all (id_ok N) (nss ! (i - Suc i0)) \<or>
    f = InWeights \<and>
      ((i - Suc i0 < length nss \<and> length wss \<le> i - Suc i0) \<or>
       (i - Suc i0 < length wss \<and> length nss \<le> i - Suc i0) \<or>
       (i - Suc i0 < length nss \<and> i - Suc i0 < length wss \<and>
        (length (nss ! (i - Suc i0)) \<noteq> length (wss ! (i - Suc i0)) \<or>
         \<not> list_all weight_ok (wss ! (i - Suc i0))))))"
      by simp
    then obtain q where q: "i - i0 = Suc q" "i - Suc i0 = q"
      by (cases "i - i0") auto
    from IH show ?thesis
      unfolding q by (simp add: q)
  qed
qed simp_all

lemma validate_out_Some:
  "validate_out N i0 nss = Some (InvalidGraphInput i f) \<Longrightarrow>
   i0 \<le> i \<and> f = OutNeighbors \<and> i - i0 < length nss \<and> \<not> list_all (id_ok N) (nss ! (i - i0))"
proof (induction N i0 nss rule: validate_out.induct)
  case (2 N i0 ns nss)
  show ?case
  proof (cases "list_all (id_ok N) ns")
    case False
    with "2.prems" show ?thesis by auto
  next
    case True
    with "2.prems" have r: "validate_out N (Suc i0) nss = Some (InvalidGraphInput i f)"
      by simp
    from "2.IH" [OF _ r] True
    have IH: "Suc i0 \<le> i \<and> f = OutNeighbors \<and> i - Suc i0 < length nss \<and>
      \<not> list_all (id_ok N) (nss ! (i - Suc i0))"
      by simp
    then obtain q where q: "i - i0 = Suc q" "i - Suc i0 = q"
      by (cases "i - i0") auto
    from IH show ?thesis
      unfolding q by (simp add: q)
  qed
qed simp

lemma validate_None:
  assumes "validate inN inW outN = None"
  shows "length inW = length inN"
    and "\<And>i. i < length inN \<Longrightarrow> length (inN ! i) = length (inW ! i)"
    and "\<And>i. i < length inN \<Longrightarrow> list_all (id_ok (length inN)) (inN ! i)"
    and "\<And>i. i < length inN \<Longrightarrow> list_all weight_ok (inW ! i)"
    and "\<And>i. i < length outN \<Longrightarrow> list_all (id_ok (length inN)) (outN ! i)"
proof -
  from assms have a: "validate_in (length inN) 0 inN inW = None"
    and b: "validate_out (length inN) 0 outN = None"
    by (auto simp: validate_def split: option.splits)
  note va = validate_in_None [OF a] and vb = validate_out_None [OF b]
  show "length inW = length inN" using va by simp
  show "\<And>i. i < length inN \<Longrightarrow> length (inN ! i) = length (inW ! i)" using va by blast
  show "\<And>i. i < length inN \<Longrightarrow> list_all (id_ok (length inN)) (inN ! i)" using va by blast
  show "\<And>i. i < length inN \<Longrightarrow> list_all weight_ok (inW ! i)" using va by blast
  show "\<And>i. i < length outN \<Longrightarrow> list_all (id_ok (length inN)) (outN ! i)" using vb by blast
qed

lemma validate_None_not_malformed:
  assumes "validate inN inW outN = None"
  shows "\<not> malformed inN inW outN"
proof -
  note v = validate_None [OF assms]
  have a: "\<not> (\<exists>i<length inN. i < length inW \<and> length (inN ! i) \<noteq> length (inW ! i))"
    using v(2) by blast
  have b: "\<not> (\<exists>ns\<in>set inN \<union> set outN. \<exists>j\<in>set ns. \<not> id_ok (length inN) j)"
  proof
    assume "\<exists>ns\<in>set inN \<union> set outN. \<exists>j\<in>set ns. \<not> id_ok (length inN) j"
    then obtain ns j where ns: "ns \<in> set inN \<or> ns \<in> set outN" and j: "j \<in> set ns"
      and bad: "\<not> id_ok (length inN) j"
      by blast
    from ns have "list_all (id_ok (length inN)) ns"
    proof
      assume "ns \<in> set inN"
      then obtain i where "i < length inN" "inN ! i = ns" by (auto simp: in_set_conv_nth)
      with v(3) [of i] show ?thesis by simp
    next
      assume "ns \<in> set outN"
      then obtain i where "i < length outN" "outN ! i = ns" by (auto simp: in_set_conv_nth)
      with v(5) [of i] show ?thesis by simp
    qed
    with j bad show False by (simp add: list_all_iff)
  qed
  have c: "\<not> (\<exists>ws\<in>set inW. \<exists>w\<in>set ws. \<not> weight_ok w)"
  proof
    assume "\<exists>ws\<in>set inW. \<exists>w\<in>set ws. \<not> weight_ok w"
    then obtain ws w where ws: "ws \<in> set inW" and w: "w \<in> set ws" "\<not> weight_ok w"
      by blast
    from ws obtain i where "i < length inW" "inW ! i = ws" by (auto simp: in_set_conv_nth)
    with v(1) v(4) [of i] have "list_all weight_ok ws" by simp
    with w show False by (simp add: list_all_iff)
  qed
  from a b c show ?thesis
    unfolding malformed_def by blast
qed

lemma validate_Some_offending:
  assumes "validate inN inW outN = Some (InvalidGraphInput i f)"
  shows "offending inN inW outN i f"
proof (cases "validate_in (length inN) 0 inN inW")
  case None
  with assms have "validate_out (length inN) 0 outN = Some (InvalidGraphInput i f)"
    by (simp add: validate_def)
  from validate_out_Some [OF this] show ?thesis
    by (simp add: offending_def)
next
  case (Some e)
  with assms have "validate_in (length inN) 0 inN inW = Some (InvalidGraphInput i f)"
    by (simp add: validate_def)
  from validate_in_Some [OF this] show ?thesis
    by (auto simp: offending_def)
qed

text \<open>
  C2. On malformed input (a node whose in-neighbour and in-weight lists differ in length,
  a referenced node id outside \<open>[0, N)\<close>, a negative or non-finite weight) the engine
  returns the error \<open>InvalidGraphInput\<close>, whatever \<open>maxIterations\<close> and \<open>tolerance\<close> are,
  and never a vector; the node and the field that the error names do break a
  precondition.
\<close>

theorem malformed_input_rejected:
  assumes "malformed inNeighbors inWeights outNeighbors"
  shows "\<exists>i f. computeViralCentrality inNeighbors inWeights outNeighbors maxIterations tolerance =
        Some (Inl (InvalidGraphInput i f)) \<and>
      offending inNeighbors inWeights outNeighbors i f"
proof -
  from assms have "validate inNeighbors inWeights outNeighbors \<noteq> None"
    using validate_None_not_malformed by blast
  then obtain e where e: "validate inNeighbors inWeights outNeighbors = Some e" by auto
  obtain i f where "e = InvalidGraphInput i f" by (cases e)
  with e validate_Some_offending [of inNeighbors inWeights outNeighbors i f] show ?thesis
    by (auto simp: computeViralCentrality_def)
qed

theorem malformed_input_rejected_witness:
  "malformed [[0]] [[Finite 1, Finite 2]] [[]] \<and>
   computeViralCentrality [[0]] [[Finite 1, Finite 2]] [[]] (- 1) (1 / 1000) =
     Some (Inl (InvalidGraphInput 0 InWeights)) \<and>
   offending [[0]] [[Finite 1, Finite 2]] [[]] 0 InWeights"
proof -
  have m: "malformed [[0]] [[Finite 1, Finite 2]] [[]]"
    by (simp add: malformed_def)
  from malformed_input_rejected [OF m, of "- 1" "1 / 1000"]
  obtain i f where r: "computeViralCentrality [[0]] [[Finite 1, Finite 2]] [[]] (- 1) (1 / 1000) =
        Some (Inl (InvalidGraphInput i f))"
    and o: "offending [[0]] [[Finite 1, Finite 2]] [[]] i f"
    by blast
  have "computeViralCentrality [[0]] [[Finite 1, Finite 2]] [[]] (- 1) (1 / 1000) =
     Some (Inl (InvalidGraphInput 0 InWeights))"
    by (simp add: computeViralCentrality_def validate_def)
  with r have "i = 0" "f = InWeights" by simp_all
  with r o m show ?thesis by simp
qed

section \<open>When the loop of the engine stops\<close>

lemma vc_loop_skip:
  assumes "\<forall>j<n. \<not> cap_reached maxIt (k + j) \<and>
     \<not> max_abs_change ((sweep inN ws ^^ Suc j) cur) ((sweep inN ws ^^ j) cur) \<le> tol"
  shows "vc_loop inN ws maxIt tol cur k = vc_loop inN ws maxIt tol ((sweep inN ws ^^ n) cur) (k + n)"
  using assms
proof (induction n)
  case 0
  then show ?case by simp
next
  case (Suc n)
  then have "vc_loop inN ws maxIt tol cur k =
      vc_loop inN ws maxIt tol ((sweep inN ws ^^ n) cur) (k + n)"
    by simp
  also have "\<dots> = vc_loop inN ws maxIt tol ((sweep inN ws ^^ Suc n) cur) (k + Suc n)"
    using Suc.prems by (subst vc_loop.simps) (simp add: Let_def)
  finally show ?case .
qed

lemma vc_loop_Some_stops:
  assumes "vc_loop inN ws maxIt tol cur k = Some r"
  shows "\<exists>n. cap_reached maxIt (k + n) \<or>
     max_abs_change ((sweep inN ws ^^ Suc n) cur) ((sweep inN ws ^^ n) cur) \<le> tol"
proof (rule vc_loop.raw_induct [where P = "\<lambda>inN ws maxIt tol cur k r.
    \<exists>n. cap_reached maxIt (k + n) \<or>
      max_abs_change ((sweep inN ws ^^ Suc n) cur) ((sweep inN ws ^^ n) cur) \<le> tol", OF _ assms])
  fix loop :: "int list list \<Rightarrow> real list list \<Rightarrow> int \<Rightarrow> real \<Rightarrow> real list \<Rightarrow> nat \<Rightarrow> (real list \<times> nat) option"
    and inN ws maxIt tol cur k r
  assume IH: "\<And>a b c d e f y. loop a b c d e f = Some y \<Longrightarrow>
      \<exists>n. cap_reached c (f + n) \<or> max_abs_change ((sweep a b ^^ Suc n) e) ((sweep a b ^^ n) e) \<le> d"
    and step: "(if cap_reached maxIt k then Some (cur, k)
      else let new = sweep inN ws cur
           in if max_abs_change new cur \<le> tol then Some (new, Suc k)
              else loop inN ws maxIt tol new (Suc k)) = Some r"
  show "\<exists>n. cap_reached maxIt (k + n) \<or>
     max_abs_change ((sweep inN ws ^^ Suc n) cur) ((sweep inN ws ^^ n) cur) \<le> tol"
  proof (cases "cap_reached maxIt k")
    case True
    then have "cap_reached maxIt (k + 0)" by simp
    then show ?thesis by blast
  next
    case nc: False
    show ?thesis
    proof (cases "max_abs_change (sweep inN ws cur) cur \<le> tol")
      case True
      then have "max_abs_change ((sweep inN ws ^^ Suc 0) cur) ((sweep inN ws ^^ 0) cur) \<le> tol"
        by simp
      then show ?thesis by blast
    next
      case False
      with nc step have "loop inN ws maxIt tol (sweep inN ws cur) (Suc k) = Some r"
        by (simp add: Let_def)
      from IH [OF this] obtain n where
        "cap_reached maxIt (Suc k + n) \<or>
         max_abs_change ((sweep inN ws ^^ Suc n) (sweep inN ws cur))
           ((sweep inN ws ^^ n) (sweep inN ws cur)) \<le> tol"
        by blast
      then have "cap_reached maxIt (k + Suc n) \<or>
         max_abs_change ((sweep inN ws ^^ Suc (Suc n)) cur) ((sweep inN ws ^^ Suc n) cur) \<le> tol"
        by (simp add: funpow_swap1)
      then show ?thesis by blast
    qed
  qed
qed

lemma vc_run_least_stop:
  assumes st: "stops inN inW maxIt tol n" and least: "\<forall>j<n. \<not> stops inN inW maxIt tol j"
  shows "vc_run inN inW maxIt tol = Some (estimates inN inW n, n)"
proof (cases n)
  case 0
  with st have "cap_reached maxIt 0" by (simp add: stops_def)
  then show ?thesis
    unfolding vc_run_def 0 by (subst vc_loop.simps) (simp add: estimates_def)
next
  case (Suc m)
  let ?ws = "map (map weight_value) inW"
  let ?z = "replicate (length inN) (0::real)"
  have est: "estimates inN inW j = (sweep inN ?ws ^^ j) ?z" for j
    by (simp add: estimates_def)
  have nocap: "\<not> cap_reached maxIt j" if "j \<le> m" for j
    using least that by (auto simp: stops_def Suc)
  have noconv: "\<not> max_abs_change ((sweep inN ?ws ^^ Suc j) ?z) ((sweep inN ?ws ^^ j) ?z) \<le> tol"
    if "j < m" for j
  proof -
    from that have "Suc j < n" by (simp add: Suc)
    with least have "\<not> stops inN inW maxIt tol (Suc j)" by blast
    then show ?thesis by (simp add: stops_def est)
  qed
  have skip: "vc_loop inN ?ws maxIt tol ?z 0 = vc_loop inN ?ws maxIt tol ((sweep inN ?ws ^^ m) ?z) m"
    using vc_loop_skip [of m maxIt 0 inN ?ws ?z tol] nocap noconv by simp
  show ?thesis
  proof (cases "max_abs_change ((sweep inN ?ws ^^ Suc m) ?z) ((sweep inN ?ws ^^ m) ?z) \<le> tol")
    case True
    have "vc_loop inN ?ws maxIt tol ((sweep inN ?ws ^^ m) ?z) m = Some ((sweep inN ?ws ^^ Suc m) ?z, Suc m)"
      using True nocap [of m] by (subst vc_loop.simps) (simp add: Let_def)
    with skip show ?thesis
      by (simp add: vc_run_def est Suc)
  next
    case False
    with st have cap: "cap_reached maxIt (Suc m)"
      by (simp add: stops_def Suc est)
    have "vc_loop inN ?ws maxIt tol ((sweep inN ?ws ^^ m) ?z) m =
        vc_loop inN ?ws maxIt tol ((sweep inN ?ws ^^ Suc m) ?z) (Suc m)"
      using False nocap [of m] by (subst vc_loop.simps) (simp add: Let_def)
    also have "\<dots> = Some ((sweep inN ?ws ^^ Suc m) ?z, Suc m)"
      using cap by (subst vc_loop.simps) simp
    finally show ?thesis
      using skip by (simp add: vc_run_def est Suc)
  qed
qed

lemma vc_run_Some_stops:
  assumes "vc_run inN inW maxIt tol = Some r"
  shows "\<exists>n. stops inN inW maxIt tol n"
proof -
  from vc_loop_Some_stops [OF assms [unfolded vc_run_def]] obtain n where
    "cap_reached maxIt n \<or>
     max_abs_change (estimates inN inW (Suc n)) (estimates inN inW n) \<le> tol"
    by (auto simp: estimates_def)
  then have "stops inN inW maxIt tol n \<or> stops inN inW maxIt tol (Suc n)"
    by (auto simp: stops_def)
  then show ?thesis by blast
qed

lemma vc_run_iff:
  "vc_run inN inW maxIt tol = Some (v, n) \<longleftrightarrow>
     v = estimates inN inW n \<and> stops inN inW maxIt tol n \<and> (\<forall>j<n. \<not> stops inN inW maxIt tol j)"
proof
  assume r: "vc_run inN inW maxIt tol = Some (v, n)"
  from vc_run_Some_stops [OF r] obtain m where "stops inN inW maxIt tol m" ..
  then obtain m0 where m0: "stops inN inW maxIt tol m0" "\<forall>j<m0. \<not> stops inN inW maxIt tol j"
    using exists_least_iff [of "stops inN inW maxIt tol"] by blast
  from vc_run_least_stop [OF m0] r have "v = estimates inN inW m0" "n = m0" by simp_all
  with m0 show "v = estimates inN inW n \<and> stops inN inW maxIt tol n \<and>
      (\<forall>j<n. \<not> stops inN inW maxIt tol j)"
    by simp
next
  assume "v = estimates inN inW n \<and> stops inN inW maxIt tol n \<and>
      (\<forall>j<n. \<not> stops inN inW maxIt tol j)"
  then show "vc_run inN inW maxIt tol = Some (v, n)"
    using vc_run_least_stop [of inN inW maxIt tol n] by simp
qed

lemma vc_run_capped:
  assumes "0 \<le> maxIt"
  shows "\<exists>v n. vc_run inN inW maxIt tol = Some (v, n) \<and> int n \<le> maxIt"
proof -
  have "stops inN inW maxIt tol (nat maxIt)"
    using assms by (simp add: stops_def cap_reached_def)
  then obtain m0 where m0: "stops inN inW maxIt tol m0" "\<forall>j<m0. \<not> stops inN inW maxIt tol j"
    using exists_least_iff [of "stops inN inW maxIt tol"] by blast
  have "m0 \<le> nat maxIt"
  proof (rule ccontr)
    assume "\<not> m0 \<le> nat maxIt"
    then have "nat maxIt < m0" by simp
    with m0(2) \<open>stops inN inW maxIt tol (nat maxIt)\<close> show False by blast
  qed
  with vc_run_least_stop [OF m0] assms show ?thesis
    by auto
qed

lemmas engine_defs = computeViralCentrality_def validate_def vc_run_def sweep_def update_node_def
  max_abs_change_def cap_reached_def id_ok_def estimates_def stops_def

lemma two_node_valid: "validate [[], [0]] [[], [Finite 1]] [[1], []] = None"
  by (simp add: engine_defs)

lemma two_node_stops:
  "\<not> stops [[], [0]] [[], [Finite 1]] (- 1) (1 / 1000) 0"
  "\<not> stops [[], [0]] [[], [Finite 1]] (- 1) (1 / 1000) 1"
  "stops [[], [0]] [[], [Finite 1]] (- 1) (1 / 1000) 2"
  "estimates [[], [0]] [[], [Finite 1]] 2 = [0, 1]"
  by (simp_all add: engine_defs eval_nat_numeral)

text \<open>
  C3. On valid input the engine runs the loop. The loop returns the vector after \<open>n\<close>
  sweeps exactly when \<open>n\<close> is the first number of sweeps at which the cap is reached or
  the last sweep changed no node by more than the tolerance. A non-negative
  \<open>maxIterations\<close> makes the loop return after at most that many sweeps; with the
  sentinel \<open>-1\<close> only the tolerance stops it.
\<close>

theorem loop_stops_exactly_when:
  assumes "validate inNeighbors inWeights outNeighbors = None"
  shows "computeViralCentrality inNeighbors inWeights outNeighbors maxIterations tolerance =
      map_option (\<lambda>r. Inr (fst r)) (vc_run inNeighbors inWeights maxIterations tolerance) \<and>
    (\<forall>v n. vc_run inNeighbors inWeights maxIterations tolerance = Some (v, n) \<longleftrightarrow>
       v = estimates inNeighbors inWeights n \<and>
       stops inNeighbors inWeights maxIterations tolerance n \<and>
       (\<forall>j<n. \<not> stops inNeighbors inWeights maxIterations tolerance j)) \<and>
    (0 \<le> maxIterations \<longrightarrow>
       (\<exists>v n. vc_run inNeighbors inWeights maxIterations tolerance = Some (v, n) \<and>
          int n \<le> maxIterations)) \<and>
    (maxIterations = - 1 \<longrightarrow>
       (\<forall>n. stops inNeighbors inWeights maxIterations tolerance n \<longleftrightarrow>
          0 < n \<and>
          max_abs_change (estimates inNeighbors inWeights n) (estimates inNeighbors inWeights (n - 1))
            \<le> tolerance))"
proof (intro conjI)
  show "computeViralCentrality inNeighbors inWeights outNeighbors maxIterations tolerance =
      map_option (\<lambda>r. Inr (fst r)) (vc_run inNeighbors inWeights maxIterations tolerance)"
    using assms by (simp add: computeViralCentrality_def)
  show "\<forall>v n. vc_run inNeighbors inWeights maxIterations tolerance = Some (v, n) \<longleftrightarrow>
       v = estimates inNeighbors inWeights n \<and>
       stops inNeighbors inWeights maxIterations tolerance n \<and>
       (\<forall>j<n. \<not> stops inNeighbors inWeights maxIterations tolerance j)"
    using vc_run_iff by blast
  show "0 \<le> maxIterations \<longrightarrow>
       (\<exists>v n. vc_run inNeighbors inWeights maxIterations tolerance = Some (v, n) \<and>
          int n \<le> maxIterations)"
    using vc_run_capped by blast
  show "maxIterations = - 1 \<longrightarrow>
       (\<forall>n. stops inNeighbors inWeights maxIterations tolerance n \<longleftrightarrow>
          0 < n \<and>
          max_abs_change (estimates inNeighbors inWeights n) (estimates inNeighbors inWeights (n - 1))
            \<le> tolerance)"
    by (simp add: stops_def cap_reached_def)
qed

theorem loop_stops_exactly_when_witness:
  "validate [[], [0]] [[], [Finite 1]] [[1], []] = None \<and>
   computeViralCentrality [[], [0]] [[], [Finite 1]] [[1], []] (- 1) (1 / 1000) = Some (Inr [0, 1]) \<and>
   vc_run [[], [0]] [[], [Finite 1]] (- 1) (1 / 1000) = Some ([0, 1], 2) \<and>
   (\<exists>v n. vc_run [[], [0]] [[], [Finite 1]] 1 (1 / 1000) = Some (v, n) \<and> int n \<le> 1)"
proof -
  note t = loop_stops_exactly_when [OF two_node_valid]
  have l: "\<forall>j<2. \<not> stops [[], [0]] [[], [Finite 1]] (- 1) (1 / 1000) j"
    using two_node_stops(1,2) by (auto simp: less_Suc_eq eval_nat_numeral)
  from t [of "- 1" "1 / 1000"] two_node_stops(3,4) l
  have r: "vc_run [[], [0]] [[], [Finite 1]] (- 1) (1 / 1000) = Some ([0, 1], 2)"
    by simp
  moreover from t [of "- 1" "1 / 1000"] r
  have "computeViralCentrality [[], [0]] [[], [Finite 1]] [[1], []] (- 1) (1 / 1000) = Some (Inr [0, 1])"
    by simp
  moreover have "(0::int) \<le> 1" by simp
  with t [of 1 "1 / 1000"]
  have "\<exists>v n. vc_run [[], [0]] [[], [Finite 1]] 1 (1 / 1000) = Some (v, n) \<and> int n \<le> 1"
    by blast
  ultimately show ?thesis
    using two_node_valid by blast
qed

section \<open>The update rule of a sweep\<close>

lemma length_sweep: "length (sweep inN ws v) = min (length inN) (length ws)"
  by (simp add: sweep_def)

lemma estimates_Suc:
  "estimates inN inW (Suc k) = sweep inN (map (map weight_value) inW) (estimates inN inW k)"
  by (simp add: estimates_def)

lemma estimates_0: "estimates inN inW 0 = replicate (length inN) 0"
  by (simp add: estimates_def)

lemma length_estimates:
  "length inW = length inN \<Longrightarrow> length (estimates inN inW k) = length inN"
  by (cases k) (simp_all add: estimates_0 estimates_Suc length_sweep)

lemma sweep_nth:
  "i < length inN \<Longrightarrow> i < length ws \<Longrightarrow> sweep inN ws v ! i = update_node (inN ! i) (ws ! i) v"
  by (simp add: sweep_def)

lemma sum_list_map_nth: "sum_list (map f xs) = (\<Sum>p<length xs. f (xs ! p))"
proof -
  have "sum_list (map f xs) = (\<Sum>p = 0..<length xs. map f xs ! p)"
    by (simp add: sum_list_sum_nth)
  also have "\<dots> = (\<Sum>p = 0..<length xs. f (xs ! p))"
    by (rule sum.cong) simp_all
  finally show ?thesis by (simp add: atLeast0LessThan)
qed

lemma update_node_sum:
  assumes "length ns = length w"
  shows "update_node ns w v = (\<Sum>p<length ns. w ! p * (1 + v ! nat (ns ! p)))"
proof -
  have "update_node ns w v = (\<Sum>p<length (zip ns w). (\<lambda>(j, x). x * (1 + v ! nat j)) (zip ns w ! p))"
    unfolding update_node_def by (rule sum_list_map_nth)
  also have "\<dots> = (\<Sum>p<length ns. w ! p * (1 + v ! nat (ns ! p)))"
    using assms by (intro sum.cong) simp_all
  finally show ?thesis .
qed

lemma estimates_Suc_nth:
  assumes "validate inN inW outN = None" and "i < length inN"
  shows "estimates inN inW (Suc k) ! i =
    (\<Sum>p<length (inN ! i). weight_value (inW ! i ! p) * (1 + estimates inN inW k ! nat (inN ! i ! p)))"
proof -
  note v = validate_None [OF assms(1)]
  have "estimates inN inW (Suc k) ! i =
      update_node (inN ! i) (map weight_value (inW ! i)) (estimates inN inW k)"
    using assms(2) v(1) by (simp add: estimates_Suc sweep_nth)
  also have "\<dots> = (\<Sum>p<length (inN ! i). map weight_value (inW ! i) ! p *
      (1 + estimates inN inW k ! nat (inN ! i ! p)))"
    using v(2) [OF assms(2)] by (intro update_node_sum) simp
  also have "\<dots> = (\<Sum>p<length (inN ! i). weight_value (inW ! i ! p) *
      (1 + estimates inN inW k ! nat (inN ! i ! p)))"
    using v(2) [OF assms(2)] by (intro sum.cong) simp_all
  finally show ?thesis .
qed

lemma valid_neighbour_index:
  assumes "validate inN inW outN = None" and "i < length inN" and "p < length (inN ! i)"
  shows "0 \<le> inN ! i ! p \<and> nat (inN ! i ! p) < length inN"
proof -
  have "inN ! i ! p \<in> set (inN ! i)"
    using assms(3) by simp
  with validate_None(3) [OF assms(1,2)] have "id_ok (length inN) (inN ! i ! p)"
    by (simp add: list_all_iff)
  then show ?thesis
    unfolding id_ok_def by linarith
qed

lemma compute_valid:
  assumes "validate inN inW outN = None"
  shows "computeViralCentrality inN inW outN maxIt tol =
    map_option (\<lambda>r. Inr (fst r)) (vc_run inN inW maxIt tol)"
  using assms by (simp add: computeViralCentrality_def)

lemma compute_Inr_estimates:
  assumes "validate inN inW outN = None"
    and "computeViralCentrality inN inW outN maxIt tol = Some (Inr v)"
  shows "\<exists>n. v = estimates inN inW n \<and> stops inN inW maxIt tol n"
proof -
  from assms obtain n where "vc_run inN inW maxIt tol = Some (v, n)"
    by (auto simp: compute_valid)
  then show ?thesis
    using vc_run_iff [of inN inW maxIt tol v n] by blast
qed

text \<open>
  C1. On valid input the estimates start from the all-zero vector, and each sweep gives
  node \<open>i\<close> the sum, over its in-neighbours \<open>j\<close> with edge weight \<open>w\<close>, of
  \<open>w * (1 + priorValue[j])\<close>, where \<open>priorValue\<close> is the vector of the sweep before; every
  vector the engine returns is one of these estimates.
\<close>

theorem sweep_update_rule:
  assumes "validate inNeighbors inWeights outNeighbors = None"
  shows "estimates inNeighbors inWeights 0 = replicate (length inNeighbors) 0 \<and>
    (\<forall>k i. i < length inNeighbors \<longrightarrow>
       estimates inNeighbors inWeights (Suc k) ! i =
         (\<Sum>p<length (inNeighbors ! i).
            weight_value (inWeights ! i ! p) *
            (1 + estimates inNeighbors inWeights k ! nat (inNeighbors ! i ! p)))) \<and>
    (\<forall>k i p. i < length inNeighbors \<and> p < length (inNeighbors ! i) \<longrightarrow>
       0 \<le> inNeighbors ! i ! p \<and>
       nat (inNeighbors ! i ! p) < length (estimates inNeighbors inWeights k)) \<and>
    (\<forall>v. computeViralCentrality inNeighbors inWeights outNeighbors maxIterations tolerance =
           Some (Inr v) \<longrightarrow>
       (\<exists>n. v = estimates inNeighbors inWeights n))"
proof (intro conjI allI impI)
  show "estimates inNeighbors inWeights 0 = replicate (length inNeighbors) 0"
    by (rule estimates_0)
next
  fix k i assume "i < length inNeighbors"
  with assms show "estimates inNeighbors inWeights (Suc k) ! i =
         (\<Sum>p<length (inNeighbors ! i).
            weight_value (inWeights ! i ! p) *
            (1 + estimates inNeighbors inWeights k ! nat (inNeighbors ! i ! p)))"
    by (rule estimates_Suc_nth)
next
  fix k i p assume a: "i < length inNeighbors \<and> p < length (inNeighbors ! i)"
  then show "0 \<le> inNeighbors ! i ! p"
    using valid_neighbour_index [OF assms] by blast
  from a show "nat (inNeighbors ! i ! p) < length (estimates inNeighbors inWeights k)"
    using valid_neighbour_index [OF assms] validate_None(1) [OF assms]
    by (simp add: length_estimates)
next
  fix v assume "computeViralCentrality inNeighbors inWeights outNeighbors maxIterations tolerance =
           Some (Inr v)"
  with assms show "\<exists>n. v = estimates inNeighbors inWeights n"
    using compute_Inr_estimates by blast
qed

theorem sweep_update_rule_witness:
  "validate [[], [0]] [[], [Finite 1]] [[1], []] = None \<and>
   estimates [[], [0]] [[], [Finite 1]] 0 = [0, 0] \<and>
   estimates [[], [0]] [[], [Finite 1]] 1 ! 1 = 1 * (1 + estimates [[], [0]] [[], [Finite 1]] 0 ! 0) \<and>
   computeViralCentrality [[], [0]] [[], [Finite 1]] [[1], []] (- 1) (1 / 1000) = Some (Inr [0, 1]) \<and>
   (\<exists>n. [0, 1] = estimates [[], [0]] [[], [Finite 1]] n)"
proof -
  note t = sweep_update_rule [OF two_node_valid, of "- 1" "1 / 1000"]
  have c: "computeViralCentrality [[], [0]] [[], [Finite 1]] [[1], []] (- 1) (1 / 1000) = Some (Inr [0, 1])"
    by (simp add: engine_defs vc_loop.simps)
  from t have "estimates [[], [0]] [[], [Finite 1]] 0 = [0, 0]"
    by (simp add: eval_nat_numeral)
  moreover from t have "estimates [[], [0]] [[], [Finite 1]] (Suc 0) ! 1 =
      (\<Sum>p<length ([[], [0]] ! 1). weight_value ([[], [Finite 1]] ! 1 ! p) *
         (1 + estimates [[], [0]] [[], [Finite 1]] 0 ! nat ([[], [0::int]] ! 1 ! p)))"
    by (simp del: estimates_Suc)
  then have "estimates [[], [0]] [[], [Finite 1]] 1 ! 1 =
      1 * (1 + estimates [[], [0]] [[], [Finite 1]] 0 ! 0)"
    by simp
  moreover from t c have "\<exists>n. [0, 1] = estimates [[], [0]] [[], [Finite 1]] n"
    by blast
  ultimately show ?thesis
    using two_node_valid c by blast
qed

section \<open>Nodes without in-neighbours\<close>










end
